theory Spec2Isabelle
  imports Complex_Main
begin

section \<open>Grover's algorithm demo: the circuit builder of \<open>grover_interactive.py\<close>\<close>

text \<open>
  The Python program builds a gate list on a \<open>QuantumCircuit\<close> object and hands it to a
  simulator. The functions \<open>get_possible_states\<close>, \<open>apply_oracle\<close>, \<open>apply_diffusion\<close> and
  \<open>run_grovers_algorithm\<close> are embedded from the source. The circuit object and the
  meaning of the gates on an amplitude vector belong to the quantum library that the program
  imports, whose code is not part of the repository; they are modelled from sections 4.1
  and 4.2 of the specification. A number of qubits and a number of iterations are natural
  numbers here: a negative number of qubits is refused when the circuit is created, and
  \<open>range\<close> of a negative number of iterations is empty, as \<open>range(0)\<close> is.
\<close>

subsection \<open>The circuit object\<close>

datatype error = CircuitError | ValueError

datatype instruction = H nat | X nat | MCX "nat list" nat | Measure_all

record circuit =
  num_qubits :: nat
  data :: "instruction list"

text \<open>
  A call on the circuit either returns the extended circuit or raises. The circuit is a
  mutable object: what it holds at the moment of the raise is kept beside the error.
\<close>

type_synonym outcome = "(error \<times> circuit) + circuit"

definition and_then :: "outcome \<Rightarrow> (circuit \<Rightarrow> outcome) \<Rightarrow> outcome" where
  "and_then r f = (case r of Inl e \<Rightarrow> Inl e | Inr qc \<Rightarrow> f qc)"

definition QuantumCircuit :: "nat \<Rightarrow> circuit" where
  "QuantumCircuit n = \<lparr>num_qubits = n, data = []\<rparr>"

text \<open>
  Modelled from the spec: the check of a qubit index, which the library makes when a gate
  is appended. A gate call whose qubit index is outside \<open>[0, n)\<close> fails fast. The index is a
  Python integer used to index the list of qubits, so \<open>-n \<dots> -1\<close> count from the end; the
  only such index the program can form is \<open>n_qubits - 1\<close> for \<open>n_qubits = 0\<close>, which fails.
\<close>

definition qubit_index :: "circuit \<Rightarrow> int \<Rightarrow> nat option" where
  "qubit_index qc i =
     (let n = int (num_qubits qc)
      in if 0 \<le> i \<and> i < n then Some (nat i)
         else if - n \<le> i \<and> i < 0 then Some (nat (n + i))
         else None)"

definition append_instruction :: "circuit \<Rightarrow> instruction \<Rightarrow> circuit" where
  "append_instruction qc g = qc\<lparr>data := data qc @ [g]\<rparr>"

definition qc_h :: "circuit \<Rightarrow> int \<Rightarrow> outcome" where
  "qc_h qc i =
     (case qubit_index qc i of
        None \<Rightarrow> Inl (CircuitError, qc)
      | Some q \<Rightarrow> Inr (append_instruction qc (H q)))"

definition qc_x :: "circuit \<Rightarrow> int \<Rightarrow> outcome" where
  "qc_x qc i =
     (case qubit_index qc i of
        None \<Rightarrow> Inl (CircuitError, qc)
      | Some q \<Rightarrow> Inr (append_instruction qc (X q)))"

fun qubit_indices :: "circuit \<Rightarrow> int list \<Rightarrow> nat list option" where
  "qubit_indices qc [] = Some []"
| "qubit_indices qc (i # rest) =
     (case qubit_index qc i of
        None \<Rightarrow> None
      | Some q \<Rightarrow> (case qubit_indices qc rest of None \<Rightarrow> None | Some qs \<Rightarrow> Some (q # qs)))"

definition qc_mcx :: "circuit \<Rightarrow> int list \<Rightarrow> int \<Rightarrow> outcome" where
  "qc_mcx qc controls target =
     (case qubit_indices qc controls of
        None \<Rightarrow> Inl (CircuitError, qc)
      | Some cs \<Rightarrow>
          (case qubit_index qc target of
             None \<Rightarrow> Inl (CircuitError, qc)
           | Some t \<Rightarrow> Inr (append_instruction qc (MCX cs t))))"

text \<open>\<open>qc.h(range(n))\<close> and \<open>qc.x(range(n))\<close>: one gate per qubit, in order.\<close>

fun qc_each :: "(circuit \<Rightarrow> int \<Rightarrow> outcome) \<Rightarrow> circuit \<Rightarrow> int list \<Rightarrow> outcome" where
  "qc_each gate qc [] = Inr qc"
| "qc_each gate qc (i # rest) = and_then (gate qc i) (\<lambda>qc'. qc_each gate qc' rest)"

definition py_range :: "nat \<Rightarrow> int list" where
  "py_range n = map int [0..<n]"

definition measure_all :: "circuit \<Rightarrow> circuit" where
  "measure_all qc = append_instruction qc Measure_all"

subsection \<open>The functions of the source\<close>

text \<open>
  \<open>get_possible_states\<close>: \<open>format(i, '0nb')\<close> for every \<open>i\<close> below \<open>2 ^ n\<close>, the binary numeral of
  \<open>i\<close> on \<open>n\<close> characters, most significant bit first. The user interface offers these
  strings, and no other, as targets.
\<close>

definition format_binary :: "nat \<Rightarrow> nat \<Rightarrow> string" where
  "format_binary n i = map (\<lambda>k. if bit i (n - 1 - k) then CHR ''1'' else CHR ''0'') [0..<n]"

definition get_possible_states :: "nat \<Rightarrow> string list" where
  "get_possible_states n_qubits = map (format_binary n_qubits) [0..<2 ^ n_qubits]"

text \<open>
  \<open>int(bit)\<close> on one character: a decimal digit gives its value, anything else raises
  \<open>ValueError\<close>. The list of bits is built before the first gate of the oracle is appended.
\<close>

definition int_of_char :: "char \<Rightarrow> nat option" where
  "int_of_char c =
     (let k = (of_char c :: nat) in if 48 \<le> k \<and> k \<le> 57 then Some (k - 48) else None)"

fun target_bits_of :: "string \<Rightarrow> nat list option" where
  "target_bits_of [] = Some []"
| "target_bits_of (c # cs) =
     (case int_of_char c of
        None \<Rightarrow> None
      | Some b \<Rightarrow> (case target_bits_of cs of None \<Rightarrow> None | Some bs \<Rightarrow> Some (b # bs)))"

text \<open>The loop \<open>for i, bit in enumerate(target_bits): if bit == 0: qc.x(i)\<close>.\<close>

fun x_where_zero :: "circuit \<Rightarrow> (nat \<times> nat) list \<Rightarrow> outcome" where
  "x_where_zero qc [] = Inr qc"
| "x_where_zero qc ((i, b) # rest) =
     (if b = 0 then and_then (qc_x qc (int i)) (\<lambda>qc'. x_where_zero qc' rest)
      else x_where_zero qc rest)"

text \<open>
  The three lines \<open>qc.h(n - 1); qc.mcx(list(range(n - 1)), n - 1); qc.h(n - 1)\<close>, which
  \<open>apply_oracle\<close> and \<open>apply_diffusion\<close> both contain.
\<close>

definition multi_controlled_z :: "circuit \<Rightarrow> nat \<Rightarrow> outcome" where
  "multi_controlled_z qc n_qubits =
     and_then (qc_h qc (int n_qubits - 1)) (\<lambda>qc1.
     and_then (qc_mcx qc1 (py_range (n_qubits - 1)) (int n_qubits - 1)) (\<lambda>qc2.
     qc_h qc2 (int n_qubits - 1)))"

definition apply_oracle :: "circuit \<Rightarrow> nat \<Rightarrow> string \<Rightarrow> outcome" where
  "apply_oracle qc n_qubits target_state =
     (case target_bits_of (rev target_state) of
        None \<Rightarrow> Inl (ValueError, qc)
      | Some target_bits \<Rightarrow>
          and_then (x_where_zero qc (enumerate 0 target_bits)) (\<lambda>qc1.
          and_then (multi_controlled_z qc1 n_qubits) (\<lambda>qc2.
          x_where_zero qc2 (enumerate 0 target_bits))))"

definition apply_diffusion :: "circuit \<Rightarrow> nat \<Rightarrow> outcome" where
  "apply_diffusion qc n_qubits =
     and_then (qc_each qc_h qc (py_range n_qubits)) (\<lambda>qc1.
     and_then (qc_each qc_x qc1 (py_range n_qubits)) (\<lambda>qc2.
     and_then (multi_controlled_z qc2 n_qubits) (\<lambda>qc3.
     and_then (qc_each qc_x qc3 (py_range n_qubits)) (\<lambda>qc4.
     qc_each qc_h qc4 (py_range n_qubits)))))"

fun grover_iterations :: "nat \<Rightarrow> circuit \<Rightarrow> nat \<Rightarrow> string \<Rightarrow> outcome" where
  "grover_iterations 0 qc n_qubits target_state = Inr qc"
| "grover_iterations (Suc k) qc n_qubits target_state =
     and_then (apply_oracle qc n_qubits target_state) (\<lambda>qc1.
     and_then (apply_diffusion qc1 n_qubits) (\<lambda>qc2.
     grover_iterations k qc2 n_qubits target_state))"

text \<open>
  \<open>run_grovers_algorithm\<close> up to the measurement. The counts it also returns are random
  samples of the simulator, drawn from \<open>probabilities\<close> of the state below.
\<close>

definition run_grovers_algorithm :: "nat \<Rightarrow> string \<Rightarrow> nat \<Rightarrow> outcome" where
  "run_grovers_algorithm n_qubits target_state iterations =
     and_then (qc_each qc_h (QuantumCircuit n_qubits) (py_range n_qubits)) (\<lambda>qc1.
     and_then (grover_iterations iterations qc1 n_qubits target_state) (\<lambda>qc2.
     Inr (measure_all qc2)))"

subsection \<open>Amplitude vectors and the meaning of the gates\<close>

type_synonym statevector = "complex list"

text \<open>
  Modelled from the spec: the state \<open>|0\<dots>0\<rangle>\<close> in which the simulator starts, a vector of
  \<open>2 ^ n\<close> amplitudes, all zero except the one at index 0. Bit \<open>i\<close> of an index is qubit \<open>i\<close>.
\<close>

definition init :: "nat \<Rightarrow> statevector" where
  "init n = map (\<lambda>i. if i = 0 then 1 else 0) [0..<2 ^ n]"

text \<open>
  Modelled from the spec: the effect of the library's gates \<open>h\<close>, \<open>x\<close> and \<open>mcx\<close> on the
  amplitude vector (GateOps). \<open>hadamard\<close> replaces every pair \<open>(a, b)\<close> of amplitudes whose
  indices differ only in bit \<open>qubit\<close> (\<open>a\<close> at the index with the bit clear) by
  \<open>((a + b) / \<surd>2, (a - b) / \<surd>2)\<close>; \<open>pauliX\<close> swaps the pair; \<open>multiControlledNOT\<close> swaps
  the pair of the target qubit at the indices where every control bit is 1, which with no
  control qubit is every index. The measurement leaves the amplitudes to the sampler.
\<close>

definition hadamard :: "statevector \<Rightarrow> nat \<Rightarrow> statevector" where
  "hadamard state qubit =
     map (\<lambda>i. if bit i qubit
               then (state ! flip_bit qubit i - state ! i) / complex_of_real (sqrt 2)
               else (state ! i + state ! flip_bit qubit i) / complex_of_real (sqrt 2))
       [0..<length state]"

definition pauliX :: "statevector \<Rightarrow> nat \<Rightarrow> statevector" where
  "pauliX state qubit = map (\<lambda>i. state ! flip_bit qubit i) [0..<length state]"

definition multiControlledNOT :: "statevector \<Rightarrow> nat list \<Rightarrow> nat \<Rightarrow> statevector" where
  "multiControlledNOT state controlQubits targetQubit =
     map (\<lambda>i. if list_all (bit i) controlQubits then state ! flip_bit targetQubit i
               else state ! i)
       [0..<length state]"

fun apply_instruction :: "statevector \<Rightarrow> instruction \<Rightarrow> statevector" where
  "apply_instruction state (H q) = hadamard state q"
| "apply_instruction state (X q) = pauliX state q"
| "apply_instruction state (MCX cs t) = multiControlledNOT state cs t"
| "apply_instruction state Measure_all = state"

definition evolve :: "instruction list \<Rightarrow> statevector \<Rightarrow> statevector" where
  "evolve gates state = foldl apply_instruction state gates"

text \<open>
  The probability of each outcome, from which the shots are drawn, their sum, and the mean
  amplitude.
\<close>

definition probabilities :: "statevector \<Rightarrow> real list" where
  "probabilities state = map (\<lambda>a. (cmod a)\<^sup>2) state"

definition total_probability :: "statevector \<Rightarrow> real" where
  "total_probability state = sum_list (probabilities state)"

definition mean :: "statevector \<Rightarrow> complex" where
  "mean state = sum_list state / of_nat (length state)"

text \<open>The index named by a target string: its value as a binary numeral, \<open>int(s, 2)\<close>.\<close>

definition target_index :: "string \<Rightarrow> nat" where
  "target_index s = foldl (\<lambda>a c. 2 * a + (if c = CHR ''1'' then 1 else 0)) 0 s"

definition binary_string :: "string \<Rightarrow> bool" where
  "binary_string s = list_all (\<lambda>c. c = CHR ''0'' \<or> c = CHR ''1'') s"


subsection \<open>The state a circuit leads to\<close>

text \<open>
  The simulator applies the gates of a circuit, in order, to the amplitude vector. A run that
  raised has no state.
\<close>

definition state_after :: "outcome \<Rightarrow> statevector \<Rightarrow> statevector option" where
  "state_after r state = (case r of Inl e \<Rightarrow> None | Inr qc \<Rightarrow> Some (evolve (data qc) state))"

definition final_state :: "nat \<Rightarrow> string \<Rightarrow> nat \<Rightarrow> statevector option" where
  "final_state n_qubits target_state iterations =
     state_after (run_grovers_algorithm n_qubits target_state iterations) (init n_qubits)"

subsection \<open>Auxiliary notions for the proofs\<close>

text \<open>
  The qubits on which the oracle's loop places an \<open>X\<close>, the index reached by flipping a list
  of bits, the gate lists that the builder functions append, and the vector \<open>a + c b\<close>.
\<close>

definition zero_positions :: "(nat \<times> nat) list \<Rightarrow> nat list" where
  "zero_positions ps = map fst (filter (\<lambda>p. snd p = 0) ps)"

definition flip_all :: "nat list \<Rightarrow> nat \<Rightarrow> nat" where
  "flip_all ps i = foldr flip_bit ps i"

definition mcz_gates :: "nat \<Rightarrow> instruction list" where
  "mcz_gates n = [H (n - 1), MCX [0..<n - 1] (n - 1), H (n - 1)]"

definition oracle_gates :: "nat \<Rightarrow> nat list \<Rightarrow> instruction list" where
  "oracle_gates n bits =
     map X (zero_positions (enumerate 0 bits)) @ mcz_gates n @
     map X (zero_positions (enumerate 0 bits))"

definition diffusion_gates :: "nat \<Rightarrow> instruction list" where
  "diffusion_gates n =
     map H [0..<n] @ map X [0..<n] @ mcz_gates n @ map X [0..<n] @ map H [0..<n]"

definition lin :: "nat \<Rightarrow> statevector \<Rightarrow> complex \<Rightarrow> statevector \<Rightarrow> statevector" where
  "lin N a c b = map (\<lambda>i. a ! i + c * b ! i) [0..<N]"

definition uniform :: "nat \<Rightarrow> statevector" where
  "uniform n = replicate (2 ^ n) (1 / complex_of_real (sqrt 2) ^ n)"

definition grover_step :: "nat \<Rightarrow> nat \<Rightarrow> statevector \<Rightarrow> statevector" where
  "grover_step n k w =
     map (\<lambda>i. w[k := - (w ! k)] ! i - 2 * mean (w[k := - (w ! k)])) [0..<2 ^ n]"

definition well_formed :: "nat \<Rightarrow> instruction \<Rightarrow> bool" where
  "well_formed n g =
     (case g of
        H q \<Rightarrow> q < n
      | X q \<Rightarrow> q < n
      | MCX cs t \<Rightarrow> t < n \<and> list_all (\<lambda>c. c < n) cs \<and> t \<notin> set cs
      | Measure_all \<Rightarrow> True)"


section \<open>Lemmas\<close>

subsection \<open>The gates that the calls on the circuit append\<close>

lemma qubit_index_int: "i < num_qubits qc \<Longrightarrow> qubit_index qc (int i) = Some i"
  by (simp add: qubit_index_def)

lemma qubit_index_last: "0 < num_qubits qc \<Longrightarrow> qubit_index qc (int (num_qubits qc) - 1) = Some (num_qubits qc - 1)"
  by (simp add: qubit_index_def Let_def nat_diff_distrib')

lemma num_qubits_append [simp]: "num_qubits (qc\<lparr>data := gs\<rparr>) = num_qubits qc"
  by simp

lemma qc_each_h:
  "\<forall>q \<in> set qs. q < num_qubits qc \<Longrightarrow>
   qc_each qc_h qc (map int qs) = Inr (qc\<lparr>data := data qc @ map H qs\<rparr>)"
  by (induction qs arbitrary: qc)
     (simp_all add: qc_h_def qubit_index_int and_then_def append_instruction_def)

lemma qc_each_x:
  "\<forall>q \<in> set qs. q < num_qubits qc \<Longrightarrow>
   qc_each qc_x qc (map int qs) = Inr (qc\<lparr>data := data qc @ map X qs\<rparr>)"
  by (induction qs arbitrary: qc)
     (simp_all add: qc_x_def qubit_index_int and_then_def append_instruction_def)


lemma qubit_indices_range:
  "k \<le> num_qubits qc \<Longrightarrow> qubit_indices qc (map int qs) = Some qs" if "\<forall>q\<in>set qs. q < k"
  using that by (induction qs) (simp_all add: qubit_index_int)

lemma qc_h_last:
  "0 < num_qubits qc \<Longrightarrow>
   qc_h qc (int (num_qubits qc) - 1) = Inr (append_instruction qc (H (num_qubits qc - 1)))"
  by (simp add: qc_h_def qubit_index_last)

lemma qc_mcx_last:
  assumes "0 < num_qubits qc"
  shows "qc_mcx qc (py_range (num_qubits qc - 1)) (int (num_qubits qc) - 1) =
         Inr (append_instruction qc (MCX [0..<num_qubits qc - 1] (num_qubits qc - 1)))"
proof -
  have "qubit_indices qc (map int [0..<num_qubits qc - 1]) = Some [0..<num_qubits qc - 1]"
    by (rule qubit_indices_range[where k="num_qubits qc - 1"]) auto
  then show ?thesis
    using assms by (simp add: qc_mcx_def py_range_def qubit_index_last)
qed

lemma num_qubits_append_instruction [simp]:
  "num_qubits (append_instruction qc g) = num_qubits qc"
  by (simp add: append_instruction_def)

lemma multi_controlled_z_ok:
  assumes "0 < n" "num_qubits qc = n"
  shows "multi_controlled_z qc n =
         Inr (qc\<lparr>data := data qc @ [H (n - 1), MCX [0..<n - 1] (n - 1), H (n - 1)]\<rparr>)"
proof -
  let ?q1 = "append_instruction qc (H (n - 1))"
  let ?q2 = "append_instruction ?q1 (MCX [0..<n - 1] (n - 1))"
  have 1: "qc_h qc (int n - 1) = Inr ?q1"
    using qc_h_last[of qc] assms by simp
  have 2: "qc_mcx ?q1 (py_range (n - 1)) (int n - 1) = Inr ?q2"
    using qc_mcx_last[of ?q1] assms by simp
  have 3: "qc_h ?q2 (int n - 1) = Inr (append_instruction ?q2 (H (n - 1)))"
    using qc_h_last[of ?q2] assms by simp
  show ?thesis
    by (simp only: multi_controlled_z_def and_then_def 1 2 3 sum.case)
       (simp add: append_instruction_def)
qed

subsection \<open>Bits of an index\<close>

lemma bit_lt_exp: "(i::nat) < 2 ^ n \<Longrightarrow> bit i k \<Longrightarrow> k < n"
  by (metis bit_take_bit_iff take_bit_nat_eq_self_iff)

lemma lt_exp_iff_bits: "(i::nat) < 2 ^ n \<longleftrightarrow> (\<forall>k. bit i k \<longrightarrow> k < n)"
proof
  assume "i < 2 ^ n" then show "\<forall>k. bit i k \<longrightarrow> k < n" using bit_lt_exp by blast
next
  assume a: "\<forall>k. bit i k \<longrightarrow> k < n"
  have "take_bit n i = i"
    by (rule bit_eqI) (use a in \<open>auto simp: bit_take_bit_iff\<close>)
  then show "i < 2 ^ n" by (simp add: take_bit_nat_eq_self_iff)
qed

lemma bit_flip_nat: "bit (flip_bit q (i::nat)) k \<longleftrightarrow> (if k = q then \<not> bit i k else bit i k)"
  by (auto simp: bit_flip_bit_iff)

lemma flip_bit_lt: "(i::nat) < 2 ^ n \<Longrightarrow> q < n \<Longrightarrow> flip_bit q i < 2 ^ n"
  unfolding lt_exp_iff_bits by (auto simp: bit_flip_nat split: if_splits)

lemma flip_flip: "flip_bit q (flip_bit q (i::nat)) = i"
  by (rule bit_eqI) (simp add: bit_flip_nat)

lemma flip_commute: "flip_bit p (flip_bit q (i::nat)) = flip_bit q (flip_bit p i)"
  by (rule bit_eqI) (auto simp: bit_flip_nat)


lemma all_bits_iff_mask: "(i::nat) < 2 ^ n \<Longrightarrow> (\<forall>k<n. bit i k) \<longleftrightarrow> i = mask n"
proof -
  assume a: "i < 2 ^ n"
  show ?thesis
  proof
    assume b: "\<forall>k<n. bit i k"
    show "i = mask n"
      by (rule bit_eqI) (use a b bit_lt_exp in \<open>auto simp: bit_mask_iff\<close>)
  next
    assume "i = mask n"
    then show "\<forall>k<n. bit i k" by (simp add: bit_mask_iff)
  qed
qed

subsection \<open>The gates, index by index\<close>

lemma length_hadamard [simp]: "length (hadamard v q) = length v" by (simp add: hadamard_def)

lemma length_pauliX [simp]: "length (pauliX v q) = length v" by (simp add: pauliX_def)

lemma length_mcnot [simp]: "length (multiControlledNOT v cs t) = length v" by (simp add: multiControlledNOT_def)

lemma length_apply_instruction [simp]: "length (apply_instruction v g) = length v" by (cases g) simp_all

lemma length_evolve [simp]: "length (evolve gs v) = length v"
  unfolding evolve_def by (induction gs arbitrary: v) simp_all

lemma evolve_Nil [simp]: "evolve [] v = v" by (simp add: evolve_def)

lemma evolve_Cons [simp]: "evolve (g # gs) v = evolve gs (apply_instruction v g)" by (simp add: evolve_def)

lemma evolve_append [simp]: "evolve (gs @ hs) v = evolve hs (evolve gs v)" by (simp add: evolve_def)

lemma nth_pauliX: "i < length v \<Longrightarrow> pauliX v q ! i = v ! flip_bit q i"
  by (simp add: pauliX_def)

lemma nth_hadamard: "i < length v \<Longrightarrow> hadamard v q ! i =
   (if bit i q then (v ! flip_bit q i - v ! i) / complex_of_real (sqrt 2)
    else (v ! i + v ! flip_bit q i) / complex_of_real (sqrt 2))"
  by (simp add: hadamard_def)

lemma nth_mcnot: "i < length v \<Longrightarrow> multiControlledNOT v cs t ! i =
   (if (\<forall>c\<in>set cs. bit i c) then v ! flip_bit t i else v ! i)"
  by (simp add: multiControlledNOT_def list_all_iff)

lemma sqrt2_sq: "complex_of_real (sqrt 2) * complex_of_real (sqrt 2) = 2"
  by (metis of_real_mult of_real_numeral real_sqrt_mult_self abs_numeral)

lemma half_half: "(x / complex_of_real (sqrt 2)) / complex_of_real (sqrt 2) = x / 2"
  by (simp add: sqrt2_sq)

lemma hadamard_twice_pair:
  fixes a b :: complex
  shows "((a + b) / complex_of_real (sqrt 2) + (a - b) / complex_of_real (sqrt 2)) / complex_of_real (sqrt 2) = a"
    and "((a + b) / complex_of_real (sqrt 2) - (a - b) / complex_of_real (sqrt 2)) / complex_of_real (sqrt 2) = b"
    and "((a - b) / complex_of_real (sqrt 2) + (a + b) / complex_of_real (sqrt 2)) / complex_of_real (sqrt 2) = a"
    and "((a - b) / complex_of_real (sqrt 2) - (a + b) / complex_of_real (sqrt 2)) / complex_of_real (sqrt 2) = - b"
  by (simp_all only: add_divide_distrib[symmetric] diff_divide_distrib[symmetric] half_half) simp_all

lemma nth_mcz:
  assumes i: "i < length v" and f: "flip_bit t i < length v" and ct: "t \<notin> set cs"
  shows "hadamard (multiControlledNOT (hadamard v t) cs t) t ! i =
         (if (\<forall>c\<in>set cs. bit i c) \<and> bit i t then - (v ! i) else v ! i)"
proof -
  define j where "j = flip_bit t i"
  define w1 where "w1 = hadamard v t"
  define w2 where "w2 = multiControlledNOT w1 cs t"
  define s where "s = complex_of_real (sqrt 2)"
  define c where "c \<longleftrightarrow> (\<forall>c\<in>set cs. bit i c)"
  define b where "b \<longleftrightarrow> bit i t"
  have jj: "flip_bit t j = i" unfolding j_def by (rule flip_flip)
  have bj: "bit j t \<longleftrightarrow> \<not> b" unfolding j_def b_def by (simp add: bit_flip_nat)
  have cj: "(\<forall>c\<in>set cs. bit j c) \<longleftrightarrow> c"
    unfolding j_def c_def using ct by (auto simp: bit_flip_nat)
  have jl: "j < length v" using f by (simp add: j_def)
  have w1i: "w1 ! i = (if b then (v ! j - v ! i) / s else (v ! i + v ! j) / s)"
    unfolding w1_def s_def j_def b_def using i by (simp add: nth_hadamard)
  have w1j: "w1 ! j = (if b then (v ! j + v ! i) / s else (v ! i - v ! j) / s)"
    unfolding w1_def s_def using jl by (simp add: nth_hadamard jj bj)
  have w2i: "w2 ! i = (if c then w1 ! j else w1 ! i)"
    unfolding w2_def j_def c_def using i by (simp add: nth_mcnot w1_def)
  have w2j: "w2 ! j = (if c then w1 ! i else w1 ! j)"
    unfolding w2_def using jl by (simp add: nth_mcnot w1_def cj jj)
  have w3: "hadamard w2 t ! i = (if b then (w2 ! j - w2 ! i) / s else (w2 ! i + w2 ! j) / s)"
    unfolding s_def j_def b_def using i by (simp add: nth_hadamard w2_def w1_def)
  have p: "((x + y) / s + (x - y) / s) / s = x" "((x + y) / s - (x - y) / s) / s = y"
          "((x - y) / s + (x + y) / s) / s = x" "((x - y) / s - (x + y) / s) / s = - y" for x y
    unfolding s_def by (rule hadamard_twice_pair)+
  have "hadamard w2 t ! i = (if c \<and> b then - (v ! i) else v ! i)"
    unfolding w3 w2i w2j w1i w1j by (cases c; cases b) (simp_all add: p)
  then show ?thesis
    by (simp add: w2_def w1_def c_def b_def)
qed

lemma last_and_rest:
  assumes "0 < n" "(i::nat) < 2 ^ n"
  shows "(\<forall>c\<in>set [0..<n - 1]. bit i c) \<and> bit i (n - 1) \<longleftrightarrow> i = mask n"
proof -
  obtain m where m: "n = Suc m" using assms(1) by (cases n) auto
  have "(\<forall>k<n. bit i k) \<longleftrightarrow> (\<forall>c\<in>set [0..<n - 1]. bit i c) \<and> bit i (n - 1)"
    unfolding m by (auto simp: less_Suc_eq)
  then show ?thesis using all_bits_iff_mask[OF assms(2)] by simp
qed

lemma mcz_semantics:
  assumes n: "0 < n" and len: "length v = 2 ^ n"
  shows "evolve [H (n - 1), MCX [0..<n - 1] (n - 1), H (n - 1)] v =
         map (\<lambda>i. if i = mask n then - (v ! i) else v ! i) [0..<2 ^ n]"
proof (rule nth_equalityI)
  show "length (evolve [H (n - 1), MCX [0..<n - 1] (n - 1), H (n - 1)] v) =
        length (map (\<lambda>i. if i = mask n then - (v ! i) else v ! i) [0..<2 ^ n])"
    using len by simp
next
  fix i assume "i < length (evolve [H (n - 1), MCX [0..<n - 1] (n - 1), H (n - 1)] v)"
  then have i: "i < 2 ^ n" using len by simp
  have f: "flip_bit (n - 1) i < 2 ^ n" using i n by (simp add: flip_bit_lt)
  have "evolve [H (n - 1), MCX [0..<n - 1] (n - 1), H (n - 1)] v ! i =
        (if (\<forall>c\<in>set [0..<n - 1]. bit i c) \<and> bit i (n - 1) then - (v ! i) else v ! i)"
    using nth_mcz[of i v "n - 1" "[0..<n - 1]"] i f len by simp
  also have "\<dots> = (if i = mask n then - (v ! i) else v ! i)"
    using last_and_rest[OF n i] by simp
  finally show "evolve [H (n - 1), MCX [0..<n - 1] (n - 1), H (n - 1)] v ! i =
        map (\<lambda>i. if i = mask n then - (v ! i) else v ! i) [0..<2 ^ n] ! i"
    using i by simp
qed

subsection \<open>A layer of X gates around the controlled phase flip\<close>

lemma flip_all_simps [simp]: "flip_all [] i = i" "flip_all (p # ps) i = flip_bit p (flip_all ps i)"
  by (simp_all add: flip_all_def)

lemma flip_all_lt: "i < 2 ^ n \<Longrightarrow> \<forall>p\<in>set ps. p < n \<Longrightarrow> flip_all ps i < 2 ^ n"
  by (induction ps) (simp_all add: flip_bit_lt)

lemma bit_flip_all:
  "distinct ps \<Longrightarrow> bit (flip_all ps i) k \<longleftrightarrow> (if k \<in> set ps then \<not> bit i k else bit i k)"
  by (induction ps) (auto simp: bit_flip_nat)

lemma flip_all_involution: "distinct ps \<Longrightarrow> flip_all ps (flip_all ps i) = i"
  by (rule bit_eqI) (simp add: bit_flip_all)

lemma evolve_X_layer:
  assumes "length v = 2 ^ n" "\<forall>p\<in>set ps. p < n"
  shows "evolve (map X ps) v = map (\<lambda>i. v ! flip_all ps i) [0..<2 ^ n]"
  using assms
proof (induction ps arbitrary: v)
  case Nil
  have "map (\<lambda>i. v ! i) [0..<length v] = v" by (rule map_nth)
  then show ?case using Nil by simp
next
  case (Cons p ps)
  have "evolve (map X (p # ps)) v = evolve (map X ps) (pauliX v p)" by simp
  also have "\<dots> = map (\<lambda>i. pauliX v p ! flip_all ps i) [0..<2 ^ n]"
    using Cons by simp
  also have "\<dots> = map (\<lambda>i. v ! flip_all (p # ps) i) [0..<2 ^ n]"
    using Cons.prems by (simp add: nth_pauliX flip_all_lt)
  finally show ?case .
qed

lemma x_mcz_x_semantics:
  assumes n: "0 < n" and len: "length v = 2 ^ n"
    and ps: "\<forall>p\<in>set ps. p < n" and d: "distinct ps"
  shows "evolve (map X ps @ mcz_gates n @ map X ps) v =
         map (\<lambda>i. if i = flip_all ps (mask n) then - (v ! i) else v ! i) [0..<2 ^ n]"
proof -
  define w where "w = evolve (map X ps) v"
  define z where "z = evolve (mcz_gates n) w"
  define M :: nat where "M = mask n"
  have w: "w = map (\<lambda>i. v ! flip_all ps i) [0..<2 ^ n]"
    unfolding w_def using len ps by (rule evolve_X_layer)
  have lw: "length w = 2 ^ n" by (simp add: w)
  have z: "z = map (\<lambda>i. if i = M then - (w ! i) else w ! i) [0..<2 ^ n]"
    unfolding z_def mcz_gates_def M_def using n lw by (rule mcz_semantics)
  have lz: "length z = 2 ^ n" by (simp add: z)
  have "evolve (map X ps @ mcz_gates n @ map X ps) v = evolve (map X ps) z"
    by (simp add: z_def w_def)
  also have "\<dots> = map (\<lambda>i. z ! flip_all ps i) [0..<2 ^ n]"
    using lz ps by (rule evolve_X_layer)
  also have "\<dots> = map (\<lambda>i. if i = flip_all ps M then - (v ! i) else v ! i) [0..<2 ^ n]"
  proof (rule map_cong[OF refl])
    fix i assume "i \<in> set [0..<2 ^ n]"
    then have i: "i < 2 ^ n" by simp
    have fi: "flip_all ps i < 2 ^ n" using i ps by (rule flip_all_lt)
    have ffi: "flip_all ps (flip_all ps i) = i" using d by (rule flip_all_involution)
    have ffm: "flip_all ps (flip_all ps M) = M" using d by (rule flip_all_involution)
    have e: "flip_all ps i = M \<longleftrightarrow> i = flip_all ps M"
      using ffi ffm by auto
    have "z ! flip_all ps i = (if flip_all ps i = M then - (w ! flip_all ps i) else w ! flip_all ps i)"
      using fi by (simp add: z)
    also have "w ! flip_all ps i = v ! i"
      using fi by (simp add: w ffi)
    finally show "z ! flip_all ps i = (if i = flip_all ps M then - (v ! i) else v ! i)"
      by (simp add: e)
  qed
  finally show ?thesis unfolding M_def .
qed

subsection \<open>The index of a target string\<close>

lemma target_index_snoc:
  "target_index (s @ [c]) = 2 * target_index s + (if c = CHR ''1'' then 1 else 0)"
  by (simp add: target_index_def)

lemma bit_target_index:
  "bit (target_index s) k \<longleftrightarrow> k < length s \<and> rev s ! k = CHR ''1''"
proof (induction s arbitrary: k rule: rev_induct)
  case Nil
  then show ?case by (simp add: target_index_def)
next
  case (snoc c s)
  show ?case
  proof (cases k)
    case 0
    then show ?thesis by (simp add: target_index_snoc bit_0)
  next
    case (Suc k')
    have "(2 * target_index s + (if c = CHR ''1'' then 1 else 0)) div 2 = target_index s"
      by simp
    then show ?thesis using snoc[of k'] Suc by (simp add: target_index_snoc bit_Suc)
  qed
qed

lemma target_index_lt: "target_index s < 2 ^ length s"
  unfolding lt_exp_iff_bits by (simp add: bit_target_index)

lemma target_bits_of_binary:
  "binary_string s \<Longrightarrow> target_bits_of s = Some (map (\<lambda>c. if c = CHR ''1'' then 1 else 0) s)"
  by (induction s) (auto simp: binary_string_def int_of_char_def)

lemma set_zero_positions: "set (zero_positions (enumerate 0 bs)) = {i. i < length bs \<and> bs ! i = 0}"
proof -
  have "i \<in> set (zero_positions (enumerate 0 bs)) \<longleftrightarrow> i < length bs \<and> bs ! i = 0" for i
  proof -
    have "i \<in> set (zero_positions (enumerate 0 bs)) \<longleftrightarrow> (i, 0) \<in> set (enumerate 0 bs)"
      by (force simp: zero_positions_def)
    then show ?thesis by (simp add: in_set_enumerate_eq)
  qed
  then show ?thesis by blast
qed

lemma distinct_zero_positions: "distinct (zero_positions (enumerate 0 bs))"
  unfolding zero_positions_def
  by (rule distinct_map_filter) (simp add: map_fst_enumerate)

lemma flip_zero_positions_is_target:
  assumes "binary_string s" "length s = n"
  shows "flip_all (zero_positions (enumerate 0 (map (\<lambda>c. if c = CHR ''1'' then 1 else 0) (rev s)))) (mask n)
         = target_index s"
proof (rule bit_eqI)
  fix k
  let ?bs = "map (\<lambda>c. if c = CHR ''1'' then 1 else (0::nat)) (rev s)"
  have b: "k < n \<Longrightarrow> rev s ! k = CHR ''0'' \<or> rev s ! k = CHR ''1''"
  proof -
    assume "k < n"
    then have "rev s ! k \<in> set s" using assms(2) by (metis length_rev nth_mem set_rev)
    then show ?thesis using assms(1) by (simp add: binary_string_def list_all_iff)
  qed
  show "bit (flip_all (zero_positions (enumerate 0 ?bs)) (mask n)) k \<longleftrightarrow> bit (target_index s) k"
    using assms(2) b
    by (auto simp: bit_flip_all distinct_zero_positions set_zero_positions bit_mask_iff bit_target_index)
qed

subsection \<open>The layer of Hadamard gates\<close>

lemma length_lin [simp]: "length (lin N a c b) = N" by (simp add: lin_def)

lemma nth_lin: "i < N \<Longrightarrow> lin N a c b ! i = a ! i + c * b ! i" by (simp add: lin_def)

lemma hadamard_lin:
  assumes "length a = 2 ^ n" "length b = 2 ^ n" "q < n"
  shows "hadamard (lin (2 ^ n) a c b) q = lin (2 ^ n) (hadamard a q) c (hadamard b q)"
proof (rule nth_equalityI)
  show "length (hadamard (lin (2 ^ n) a c b) q) = length (lin (2 ^ n) (hadamard a q) c (hadamard b q))"
    by simp
next
  fix i assume "i < length (hadamard (lin (2 ^ n) a c b) q)"
  then have i: "i < 2 ^ n" by simp
  have f: "flip_bit q i < 2 ^ n" using i assms(3) by (rule flip_bit_lt)
  show "hadamard (lin (2 ^ n) a c b) q ! i = lin (2 ^ n) (hadamard a q) c (hadamard b q) ! i"
    using i f assms(1,2)
    by (simp add: nth_hadamard nth_lin add_divide_distrib diff_divide_distrib algebra_simps)
qed

lemma H_layer_lin:
  assumes "length a = 2 ^ n" "length b = 2 ^ n" "\<forall>q\<in>set qs. q < n"
  shows "evolve (map H qs) (lin (2 ^ n) a c b) = lin (2 ^ n) (evolve (map H qs) a) c (evolve (map H qs) b)"
  using assms by (induction qs arbitrary: a b) (simp_all add: hadamard_lin)

lemma hadamard_hadamard:
  assumes "length v = 2 ^ n" "q < n"
  shows "hadamard (hadamard v q) q = v"
proof (rule nth_equalityI)
  show "length (hadamard (hadamard v q) q) = length v" by simp
next
  fix i assume "i < length (hadamard (hadamard v q) q)"
  then have i: "i < 2 ^ n" using assms by simp
  define j where "j = flip_bit q i"
  have j: "j < 2 ^ n" unfolding j_def using i assms(2) by (rule flip_bit_lt)
  have jj: "flip_bit q j = i" unfolding j_def by (rule flip_flip)
  have bj: "bit j q \<longleftrightarrow> \<not> bit i q" unfolding j_def by (simp add: bit_flip_nat)
  have 1: "hadamard (hadamard v q) q ! i =
     (if bit i q then (hadamard v q ! j - hadamard v q ! i) / complex_of_real (sqrt 2)
      else (hadamard v q ! i + hadamard v q ! j) / complex_of_real (sqrt 2))"
    using i assms(1) by (simp add: nth_hadamard j_def)
  show "hadamard (hadamard v q) q ! i = v ! i"
    unfolding 1 using i j assms(1)
    by (cases "bit i q") (simp_all add: nth_hadamard jj bj j_def[symmetric] hadamard_twice_pair)
qed

lemma hadamard_commute:
  assumes "length v = 2 ^ n" "p < n" "q < n" "p \<noteq> q"
  shows "hadamard (hadamard v p) q = hadamard (hadamard v q) p"
proof (rule nth_equalityI)
  show "length (hadamard (hadamard v p) q) = length (hadamard (hadamard v q) p)" by simp
next
  fix i assume "i < length (hadamard (hadamard v p) q)"
  then have i: "i < 2 ^ n" using assms by simp
  define ip where "ip = flip_bit p i"
  define iq where "iq = flip_bit q i"
  define ipq where "ipq = flip_bit p iq"
  define bp where "bp = bit i p"
  define bq where "bq = bit i q"
  have l: "ip < 2 ^ n" "iq < 2 ^ n" "ipq < 2 ^ n"
    unfolding ip_def iq_def ipq_def using i assms by (simp_all add: flip_bit_lt)
  have e: "flip_bit q ip = ipq" unfolding ip_def ipq_def iq_def by (rule flip_commute)
  have b: "bit ip p = (\<not> bp)" "bit ip q = bq" "bit iq q = (\<not> bq)" "bit iq p = bp"
    unfolding ip_def iq_def bp_def bq_def using assms(4) by (auto simp: bit_flip_nat)
  have L: "hadamard (hadamard v p) q ! i =
     (if bq then (hadamard v p ! iq - hadamard v p ! i) / complex_of_real (sqrt 2)
      else (hadamard v p ! i + hadamard v p ! iq) / complex_of_real (sqrt 2))"
    using i assms(1) by (simp add: nth_hadamard iq_def bq_def)
  have R: "hadamard (hadamard v q) p ! i =
     (if bp then (hadamard v q ! ip - hadamard v q ! i) / complex_of_real (sqrt 2)
      else (hadamard v q ! i + hadamard v q ! ip) / complex_of_real (sqrt 2))"
    using i assms(1) by (simp add: nth_hadamard ip_def bp_def)
  have vp: "hadamard v p ! i = (if bp then (v ! ip - v ! i) / complex_of_real (sqrt 2) else (v ! i + v ! ip) / complex_of_real (sqrt 2))"
    using i assms(1) by (simp add: nth_hadamard ip_def bp_def)
  have vq: "hadamard v q ! i = (if bq then (v ! iq - v ! i) / complex_of_real (sqrt 2) else (v ! i + v ! iq) / complex_of_real (sqrt 2))"
    using i assms(1) by (simp add: nth_hadamard iq_def bq_def)
  have vpq: "hadamard v p ! iq = (if bp then (v ! ipq - v ! iq) / complex_of_real (sqrt 2) else (v ! iq + v ! ipq) / complex_of_real (sqrt 2))"
    using l assms(1) by (simp add: nth_hadamard b ipq_def[symmetric])
  have vqp: "hadamard v q ! ip = (if bq then (v ! ipq - v ! ip) / complex_of_real (sqrt 2) else (v ! ip + v ! ipq) / complex_of_real (sqrt 2))"
    using l assms(1) by (simp add: nth_hadamard b e)
  show "hadamard (hadamard v p) q ! i = hadamard (hadamard v q) p ! i"
    unfolding L R vp vq vpq vqp
    by (cases bp; cases bq) (simp_all add: add_divide_distrib diff_divide_distrib algebra_simps)
qed

lemma H_layer_commute:
  assumes "length v = 2 ^ n" "k < n" "\<forall>q\<in>set qs. q < n \<and> q \<noteq> k"
  shows "evolve (map H qs) (hadamard v k) = hadamard (evolve (map H qs) v) k"
  using assms
proof (induction qs arbitrary: v)
  case Nil
  then show ?case by simp
next
  case (Cons q qs)
  have "hadamard (hadamard v k) q = hadamard (hadamard v q) k"
    using Cons.prems by (intro hadamard_commute[where n=n]) auto
  then show ?case using Cons by simp
qed

lemma H_layer_involution_upto:
  assumes "length v = 2 ^ n" "k \<le> n"
  shows "evolve (map H [0..<k]) (evolve (map H [0..<k]) v) = v"
  using assms
proof (induction k arbitrary: v)
  case 0
  then show ?case by simp
next
  case (Suc k)
  let ?L = "map H [0..<k]"
  have k: "k < n" using Suc.prems by simp
  have "evolve (map H [0..<Suc k]) (evolve (map H [0..<Suc k]) v) =
        hadamard (evolve ?L (hadamard (evolve ?L v) k)) k"
    by simp
  also have "evolve ?L (hadamard (evolve ?L v) k) = hadamard (evolve ?L (evolve ?L v)) k"
    using Suc.prems k by (intro H_layer_commute[where n=n]) auto
  also have "evolve ?L (evolve ?L v) = v" using Suc by simp
  also have "hadamard (hadamard v k) k = v" using Suc.prems k by (intro hadamard_hadamard[where n=n]) auto
  finally show ?case .
qed

lemma flip_bit_clear_add: "\<not> bit (i::nat) k \<Longrightarrow> flip_bit k i = i + 2 ^ k"
  by (simp add: flip_bit_eq_if set_bit_eq)

lemma dvd_exp_not_bit: "(2::nat) ^ Suc k dvd i \<Longrightarrow> \<not> bit i k"
  by (auto simp: bit_iff_odd elim!: dvdE)

lemma H_layer_at_multiple:
  assumes "length v = 2 ^ n" "k \<le> n" "i < 2 ^ n" "2 ^ k dvd i"
  shows "evolve (map H [0..<k]) v ! i = (\<Sum>j = 0..<2 ^ k. v ! (i + j)) / complex_of_real (sqrt 2) ^ k"
  using assms
proof (induction k arbitrary: i)
  case 0
  then show ?case by simp
next
  case (Suc k)
  let ?w = "evolve (map H [0..<k]) v"
  let ?s = "complex_of_real (sqrt 2)"
  have k: "k < n" using Suc.prems by simp
  have nb: "\<not> bit i k" using Suc.prems(4) by (rule dvd_exp_not_bit)
  have f: "flip_bit k i = i + 2 ^ k" using nb by (rule flip_bit_clear_add)
  have fl: "i + 2 ^ k < 2 ^ n" using flip_bit_lt[OF Suc.prems(3) k] f by simp
  have d: "2 ^ k dvd i" using Suc.prems(4) by (auto elim!: dvdE)
  have d2: "2 ^ k dvd i + 2 ^ k" using d by simp
  have a: "?w ! i = (\<Sum>j = 0..<2 ^ k. v ! (i + j)) / ?s ^ k"
    using Suc.IH[OF Suc.prems(1) _ Suc.prems(3) d] k by simp
  have b: "?w ! (i + 2 ^ k) = (\<Sum>j = 0..<2 ^ k. v ! (i + 2 ^ k + j)) / ?s ^ k"
    using Suc.IH[OF Suc.prems(1) _ fl d2] k by simp
  have split: "(\<Sum>j = 0..<2 ^ Suc k. v ! (i + j)) =
               (\<Sum>j = 0..<2 ^ k. v ! (i + j)) + (\<Sum>j = 0..<2 ^ k. v ! (i + 2 ^ k + j))"
  proof -
    have "(\<Sum>j = 0..<2 ^ Suc k. v ! (i + j)) =
          (\<Sum>j = 0..<2 ^ k. v ! (i + j)) + (\<Sum>j = 2 ^ k..<2 ^ k + 2 ^ k. v ! (i + j))"
      by (subst sum.atLeastLessThan_concat) (simp_all add: mult_2)
    also have "(\<Sum>j = 2 ^ k..<2 ^ k + 2 ^ k. v ! (i + j)) = (\<Sum>j = 0..<2 ^ k. v ! (i + 2 ^ k + j))"
      using sum.shift_bounds_nat_ivl[of "\<lambda>j. v ! (i + j)" 0 "2 ^ k" "2 ^ k"]
      by (simp add: add.commute add.left_commute)
    finally show ?thesis .
  qed
  have "evolve (map H [0..<Suc k]) v ! i = hadamard ?w k ! i" by simp
  also have "\<dots> = (?w ! i + ?w ! (i + 2 ^ k)) / ?s"
    using Suc.prems(1,3) nb f by (simp add: nth_hadamard)
  also have "\<dots> = (\<Sum>j = 0..<2 ^ Suc k. v ! (i + j)) / ?s ^ Suc k"
    unfolding a b split by (simp add: add_divide_distrib mult.commute)
  finally show ?case .
qed

lemma H_layer_at_zero:
  assumes "length v = 2 ^ n"
  shows "evolve (map H [0..<n]) v ! 0 = sum_list v / complex_of_real (sqrt 2) ^ n"
  using H_layer_at_multiple[OF assms, of n 0] assms by (simp add: sum_list_sum_nth)

lemma lt_exp_Suc_bit:
  "bit (i::nat) k \<Longrightarrow> flip_bit k i < 2 ^ k \<longleftrightarrow> i < 2 ^ Suc k"
  "bit (i::nat) k \<Longrightarrow> \<not> i < 2 ^ k"
  "\<not> bit (i::nat) k \<Longrightarrow> i < 2 ^ k \<longleftrightarrow> i < 2 ^ Suc k"
  "\<not> bit (i::nat) k \<Longrightarrow> \<not> flip_bit k i < 2 ^ k"
  unfolding lt_exp_iff_bits bit_flip_nat
  by (auto simp: less_Suc_eq split: if_splits)

lemma H_layer_init:
  assumes "k \<le> n"
  shows "evolve (map H [0..<k]) (init n) =
         map (\<lambda>i. if i < 2 ^ k then 1 / complex_of_real (sqrt 2) ^ k else 0) [0..<2 ^ n]"
  using assms
proof (induction k)
  case 0
  then show ?case by (simp add: init_def)
next
  case (Suc k)
  let ?s = "complex_of_real (sqrt 2)"
  let ?w = "map (\<lambda>i. if i < 2 ^ k then 1 / ?s ^ k else 0) [0..<2 ^ n]"
  have k: "k < n" using Suc.prems by simp
  have w: "evolve (map H [0..<k]) (init n) = ?w" using Suc by simp
  have "evolve (map H [0..<Suc k]) (init n) = hadamard ?w k" using w by simp
  also have "\<dots> = map (\<lambda>i. if i < 2 ^ Suc k then 1 / ?s ^ Suc k else 0) [0..<2 ^ n]"
  proof (rule nth_equalityI)
    show "length (hadamard ?w k) = length (map (\<lambda>i. if i < 2 ^ Suc k then 1 / ?s ^ Suc k else 0) [0..<2 ^ n])"
      by simp
  next
    fix i assume "i < length (hadamard ?w k)"
    then have i: "i < 2 ^ n" by simp
    have f: "flip_bit k i < 2 ^ n" using i k by (rule flip_bit_lt)
    show "hadamard ?w k ! i = map (\<lambda>i. if i < 2 ^ Suc k then 1 / ?s ^ Suc k else 0) [0..<2 ^ n] ! i"
    proof (cases "bit i k")
      case True
      then show ?thesis using i f lt_exp_Suc_bit(1,2)[OF True]
        by (simp add: nth_hadamard del: power_Suc)  (simp)
    next
      case False
      then show ?thesis using i f lt_exp_Suc_bit(3,4)[OF False]
        by (simp add: nth_hadamard del: power_Suc) (simp)
    qed
  qed
  finally show ?case .
qed

subsection \<open>The diffusion operator\<close>

lemma multi_controlled_z_gates:
  "0 < n \<Longrightarrow> num_qubits qc = n \<Longrightarrow>
   multi_controlled_z qc n = Inr (qc\<lparr>data := data qc @ mcz_gates n\<rparr>)"
  by (simp add: multi_controlled_z_ok mcz_gates_def)

lemma apply_diffusion_ok:
  assumes "0 < n" "num_qubits qc = n"
  shows "apply_diffusion qc n = Inr (qc\<lparr>data := data qc @ diffusion_gates n\<rparr>)"
proof -
  have h: "qc_each qc_h q (py_range n) = Inr (q\<lparr>data := data q @ map H [0..<n]\<rparr>)"
    if "num_qubits q = n" for q
    unfolding py_range_def using that by (intro qc_each_h) simp
  have x: "qc_each qc_x q (py_range n) = Inr (q\<lparr>data := data q @ map X [0..<n]\<rparr>)"
    if "num_qubits q = n" for q
    unfolding py_range_def using that by (intro qc_each_x) simp
  show ?thesis
    using assms
    by (simp add: apply_diffusion_def and_then_def h x multi_controlled_z_gates diffusion_gates_def)
qed

lemma flip_all_upt_mask: "flip_all [0..<n] (mask n) = 0"
  by (rule bit_eqI) (simp add: bit_flip_all bit_mask_iff)

lemma nth_init: "i < 2 ^ n \<Longrightarrow> init n ! i = (if i = 0 then 1 else 0)"
  by (simp add: init_def)

lemma length_init [simp]: "length (init n) = 2 ^ n"
  by (simp add: init_def)

lemma sqrt2_pow_sq: "complex_of_real (sqrt 2) ^ n * complex_of_real (sqrt 2) ^ n = 2 ^ n"
  by (simp add: sqrt2_sq flip: power_mult_distrib)

lemma diffusion_semantics:
  assumes n: "0 < n" and len: "length v = 2 ^ n"
  shows "evolve (diffusion_gates n) v = map (\<lambda>i. v ! i - 2 * mean v) [0..<2 ^ n]"
proof -
  let ?L = "map H [0..<n]"
  let ?s = "complex_of_real (sqrt 2)"
  define w where "w = evolve ?L v"
  define c where "c = - 2 * w ! 0"
  have lw: "length w = 2 ^ n" by (simp add: w_def len)
  have "evolve (map X [0..<n] @ mcz_gates n @ map X [0..<n]) w =
        map (\<lambda>i. if i = flip_all [0..<n] (mask n) then - (w ! i) else w ! i) [0..<2 ^ n]"
    using n lw by (intro x_mcz_x_semantics) auto
  also have "\<dots> = lin (2 ^ n) w c (init n)"
    unfolding flip_all_upt_mask lin_def c_def
    by (rule map_cong[OF refl]) (simp add: nth_init)
  finally have m: "evolve (map X [0..<n] @ mcz_gates n @ map X [0..<n]) w = lin (2 ^ n) w c (init n)" .
  have "evolve (diffusion_gates n) v = evolve ?L (evolve (map X [0..<n] @ mcz_gates n @ map X [0..<n]) w)"
    by (simp add: diffusion_gates_def w_def)
  also have "\<dots> = evolve ?L (lin (2 ^ n) w c (init n))" by (simp only: m)
  also have "\<dots> = lin (2 ^ n) (evolve ?L w) c (evolve ?L (init n))"
    using lw by (intro H_layer_lin) auto
  also have "evolve ?L w = v"
    unfolding w_def using len by (intro H_layer_involution_upto[where n=n]) auto
  also have "evolve ?L (init n) = map (\<lambda>i. if i < 2 ^ n then 1 / ?s ^ n else 0) [0..<2 ^ n]"
    by (rule H_layer_init) simp
  also have "lin (2 ^ n) v c (map (\<lambda>i. if i < 2 ^ n then 1 / ?s ^ n else 0) [0..<2 ^ n]) =
             map (\<lambda>i. v ! i - 2 * mean v) [0..<2 ^ n]"
  proof -
    have w0: "w ! 0 = sum_list v / ?s ^ n" unfolding w_def using len by (rule H_layer_at_zero)
    have "c * (1 / ?s ^ n) = - 2 * (sum_list v / (?s ^ n * ?s ^ n))"
      by (simp add: c_def w0)
    also have "\<dots> = - 2 * mean v"
      unfolding sqrt2_pow_sq by (simp add: mean_def len)
    finally have e: "c / ?s ^ n = - (2 * mean v)" by simp
    show ?thesis
      unfolding lin_def
      by (rule map_cong[OF refl]) (simp add: e)
  qed
  finally show ?thesis .
qed

subsection \<open>The oracle\<close>

lemma x_where_zero_gates:
  "\<forall>p \<in> set ps. snd p = 0 \<longrightarrow> fst p < num_qubits qc \<Longrightarrow>
   x_where_zero qc ps = Inr (qc\<lparr>data := data qc @ map X (zero_positions ps)\<rparr>)"
  by (induction qc ps rule: x_where_zero.induct)
     (simp_all add: qc_x_def qubit_index_int and_then_def append_instruction_def zero_positions_def)

lemma zero_positions_in_range:
  "(\<forall>p\<in>set (zero_positions ps). p < n) \<longleftrightarrow> (\<forall>p \<in> set ps. snd p = 0 \<longrightarrow> fst p < n)"
  by (auto simp: zero_positions_def)

lemma apply_oracle_ok:
  assumes "target_bits_of (rev t) = Some bits"
    and "\<forall>p\<in>set (zero_positions (enumerate 0 bits)). p < n"
    and "0 < n" "num_qubits qc = n"
  shows "apply_oracle qc n t = Inr (qc\<lparr>data := data qc @ oracle_gates n bits\<rparr>)"
proof -
  have x: "x_where_zero q (enumerate 0 bits) =
           Inr (q\<lparr>data := data q @ map X (zero_positions (enumerate 0 bits))\<rparr>)"
    if "num_qubits q = n" for q
    using assms(2) that by (intro x_where_zero_gates) (simp add: zero_positions_in_range)
  show ?thesis
    using assms
    by (simp add: apply_oracle_def and_then_def x multi_controlled_z_gates oracle_gates_def)
qed

lemma binary_target_bits:
  assumes "binary_string t"
  shows "target_bits_of (rev t) = Some (map (\<lambda>c. if c = CHR ''1'' then 1 else 0) (rev t))"
  using assms by (intro target_bits_of_binary) (simp add: binary_string_def list_all_iff)

lemma oracle_semantics:
  assumes "0 < n" "length t = n" "binary_string t" "length v = 2 ^ n"
  shows "evolve (oracle_gates n (map (\<lambda>c. if c = CHR ''1'' then 1 else 0) (rev t))) v =
         v[target_index t := - (v ! target_index t)]"
proof -
  let ?bits = "map (\<lambda>c. if c = CHR ''1'' then 1 else (0::nat)) (rev t)"
  let ?ps = "zero_positions (enumerate 0 ?bits)"
  have ps: "\<forall>p\<in>set ?ps. p < n" using assms(2) by (simp add: set_zero_positions)
  have "evolve (oracle_gates n ?bits) v =
        map (\<lambda>i. if i = flip_all ?ps (mask n) then - (v ! i) else v ! i) [0..<2 ^ n]"
    unfolding oracle_gates_def using assms(1,4) ps distinct_zero_positions
    by (rule x_mcz_x_semantics)
  also have "flip_all ?ps (mask n) = target_index t"
    using assms(3,2) by (rule flip_zero_positions_is_target)
  also have "map (\<lambda>i. if i = target_index t then - (v ! i) else v ! i) [0..<2 ^ n] =
             v[target_index t := - (v ! target_index t)]"
    by (rule nth_equalityI) (simp_all add: assms(4) nth_list_update)
  finally show ?thesis .
qed

lemma oracle_ok_binary:
  assumes "0 < n" "length t = n" "binary_string t" "num_qubits qc = n"
  shows "apply_oracle qc n t =
         Inr (qc\<lparr>data := data qc @ oracle_gates n (map (\<lambda>c. if c = CHR ''1'' then 1 else 0) (rev t))\<rparr>)"
  using binary_target_bits[OF assms(3)] _ assms(1,4)
  by (rule apply_oracle_ok) (simp add: set_zero_positions assms(2))

subsection \<open>The targets offered to the user\<close>

lemma get_possible_states_valid:
  "t \<in> set (get_possible_states n) \<Longrightarrow> length t = n \<and> binary_string t"
  by (auto simp: get_possible_states_def format_binary_def binary_string_def list_all_iff)

subsection \<open>Gates applied twice\<close>

lemma pauliX_pauliX:
  assumes "length v = 2 ^ n" "q < n"
  shows "pauliX (pauliX v q) q = v"
proof (rule nth_equalityI)
  show "length (pauliX (pauliX v q) q) = length v" by simp
next
  fix i assume "i < length (pauliX (pauliX v q) q)"
  then have i: "i < 2 ^ n" using assms by simp
  have f: "flip_bit q i < 2 ^ n" using i assms(2) by (rule flip_bit_lt)
  show "pauliX (pauliX v q) q ! i = v ! i"
    using i f assms(1) by (simp add: nth_pauliX flip_flip)
qed

lemma list_update_twice_neg:
  fixes v :: "complex list"
  shows "v[k := - (v[k := - (v ! k)] ! k)] = v"
proof (cases "k < length v")
  case True
  then show ?thesis by (simp add: list_update_same_conv)
next
  case False
  then show ?thesis by (simp add: list_update_beyond)
qed

lemma sum_list_shift:
  fixes v :: "complex list"
  shows "sum_list (map (\<lambda>i. v ! i - c) [0..<length v]) = sum_list v - of_nat (length v) * c"
proof -
  have "sum_list (map (\<lambda>i. v ! i - c) [0..<length v]) = (\<Sum>i = 0..<length v. v ! i - c)"
    by (simp add: sum_list_sum_nth)
  also have "\<dots> = (\<Sum>i = 0..<length v. v ! i) - of_nat (length v) * c"
    by (simp add: sum_subtractf)
  finally show ?thesis by (simp add: sum_list_sum_nth)
qed

lemma mean_diffusion:
  assumes "length v = 2 ^ n"
  shows "mean (map (\<lambda>i. v ! i - 2 * mean v) [0..<2 ^ n]) = - mean v"
proof -
  have "sum_list (map (\<lambda>i. v ! i - 2 * mean v) [0..<2 ^ n]) = sum_list v - 2 ^ n * (2 * mean v)"
    using sum_list_shift[of v "2 * mean v"] assms by simp
  also have "sum_list v = 2 ^ n * mean v" by (simp add: mean_def assms)
  finally show ?thesis by (simp add: mean_def)
qed

lemma diffusion_twice:
  assumes "0 < n" "length v = 2 ^ n"
  shows "evolve (diffusion_gates n) (evolve (diffusion_gates n) v) = v"
proof -
  let ?w = "map (\<lambda>i. v ! i - 2 * mean v) [0..<2 ^ n]"
  have w: "evolve (diffusion_gates n) v = ?w" using assms by (rule diffusion_semantics)
  have "evolve (diffusion_gates n) ?w = map (\<lambda>i. ?w ! i - 2 * mean ?w) [0..<2 ^ n]"
    using assms(1) by (rule diffusion_semantics) simp
  also have "\<dots> = map (\<lambda>i. v ! i) [0..<2 ^ n]"
    by (rule map_cong[OF refl]) (simp add: mean_diffusion[OF assms(2)])
  also have "\<dots> = v" using map_nth[of v] assms(2) by simp
  finally show ?thesis by (simp add: w)
qed

subsection \<open>The circuit of a run\<close>

lemma grover_iterations_ok:
  assumes "target_bits_of (rev t) = Some bits"
    and "\<forall>p\<in>set (zero_positions (enumerate 0 bits)). p < n"
    and "0 < n" "num_qubits qc = n"
  shows "grover_iterations k qc n t =
         Inr (qc\<lparr>data := data qc @ concat (replicate k (oracle_gates n bits @ diffusion_gates n))\<rparr>)"
  using assms(4)
proof (induction k arbitrary: qc)
  case 0
  then show ?case by simp
next
  case (Suc k)
  let ?q1 = "qc\<lparr>data := data qc @ oracle_gates n bits\<rparr>"
  let ?q2 = "?q1\<lparr>data := data ?q1 @ diffusion_gates n\<rparr>"
  have 1: "apply_oracle qc n t = Inr ?q1"
    using assms(1,2,3) Suc.prems by (rule apply_oracle_ok)
  have 2: "apply_diffusion ?q1 n = Inr ?q2"
    using assms(3) by (rule apply_diffusion_ok) (simp add: Suc.prems)
  have 3: "grover_iterations k ?q2 n t =
           Inr (?q2\<lparr>data := data ?q2 @ concat (replicate k (oracle_gates n bits @ diffusion_gates n))\<rparr>)"
    by (rule Suc.IH) (simp add: Suc.prems)
  show ?case
    using 3 by (simp add: and_then_def 1 2)
qed

lemma initial_layer:
  "qc_each qc_h (QuantumCircuit n) (py_range n) = Inr \<lparr>num_qubits = n, data = map H [0..<n]\<rparr>"
proof -
  have "qc_each qc_h (QuantumCircuit n) (map int [0..<n]) =
        Inr ((QuantumCircuit n)\<lparr>data := data (QuantumCircuit n) @ map H [0..<n]\<rparr>)"
    by (rule qc_each_h) (simp add: QuantumCircuit_def)
  then show ?thesis by (simp add: py_range_def QuantumCircuit_def)
qed

lemma run_ok:
  assumes "target_bits_of (rev t) = Some bits"
    and "\<forall>p\<in>set (zero_positions (enumerate 0 bits)). p < n"
    and "0 < n"
  shows "run_grovers_algorithm n t k =
         Inr \<lparr>num_qubits = n,
              data = map H [0..<n] @ concat (replicate k (oracle_gates n bits @ diffusion_gates n)) @
                     [Measure_all]\<rparr>"
proof -
  have "grover_iterations k \<lparr>num_qubits = n, data = map H [0..<n]\<rparr> n t =
        Inr (\<lparr>num_qubits = n, data = map H [0..<n]\<rparr>\<lparr>data := data \<lparr>num_qubits = n, data = map H [0..<n]\<rparr> @
             concat (replicate k (oracle_gates n bits @ diffusion_gates n))\<rparr>)"
    using assms by (rule grover_iterations_ok) simp
  then show ?thesis
    by (simp add: run_grovers_algorithm_def initial_layer and_then_def measure_all_def append_instruction_def)
qed

lemma run_zero:
  "run_grovers_algorithm n t 0 = Inr \<lparr>num_qubits = n, data = map H [0..<n] @ [Measure_all]\<rparr>"
  by (simp add: run_grovers_algorithm_def initial_layer and_then_def measure_all_def append_instruction_def)

lemma H_layer_uniform: "evolve (map H [0..<n]) (init n) = uniform n"
proof -
  have "evolve (map H [0..<n]) (init n) =
        map (\<lambda>i. if i < 2 ^ n then 1 / complex_of_real (sqrt 2) ^ n else 0) [0..<2 ^ n]"
    by (rule H_layer_init) simp
  also have "\<dots> = uniform n"
    unfolding uniform_def by (rule nth_equalityI) simp_all
  finally show ?thesis .
qed

lemma cmod_sqrt2_pow: "(cmod (1 / complex_of_real (sqrt 2) ^ n))\<^sup>2 = 1 / 2 ^ n"
proof -
  have "cmod (1 / complex_of_real (sqrt 2) ^ n) = 1 / sqrt 2 ^ n"
    by (simp add: norm_divide norm_power)
  moreover have "(sqrt 2 ^ n)\<^sup>2 = 2 ^ n"
  proof -
    have "(sqrt 2 ^ n)\<^sup>2 = sqrt 2 ^ (2 * n)" by (simp only: power_even_eq)
    also have "\<dots> = ((sqrt 2)\<^sup>2) ^ n" by (simp only: power_mult)
    also have "\<dots> = 2 ^ n" by simp
    finally show ?thesis .
  qed
  ultimately show ?thesis by (simp add: power_divide)
qed

subsection \<open>Iterations on the uniform state\<close>

lemma length_grover_step [simp]: "length (grover_step n k w) = 2 ^ n"
  by (simp add: grover_step_def)

lemma length_uniform [simp]: "length (uniform n) = 2 ^ n"
  by (simp add: uniform_def)

lemma iteration_semantics:
  assumes "0 < n" "length t = n" "binary_string t" "length w = 2 ^ n"
  shows "evolve (oracle_gates n (map (\<lambda>c. if c = CHR ''1'' then 1 else 0) (rev t)) @ diffusion_gates n) w =
         grover_step n (target_index t) w"
proof -
  have "evolve (oracle_gates n (map (\<lambda>c. if c = CHR ''1'' then 1 else 0) (rev t))) w =
        w[target_index t := - (w ! target_index t)]"
    using assms by (rule oracle_semantics)
  moreover have "evolve (diffusion_gates n) (w[target_index t := - (w ! target_index t)]) =
        map (\<lambda>i. w[target_index t := - (w ! target_index t)] ! i -
                  2 * mean (w[target_index t := - (w ! target_index t)])) [0..<2 ^ n]"
    using assms(1) by (rule diffusion_semantics) (simp add: assms(4))
  ultimately show ?thesis by (simp add: grover_step_def)
qed

lemma evolve_repeat:
  assumes "\<And>w. length w = N \<Longrightarrow> evolve G w = f w" "\<And>w. length (f w) = N" "length w = N"
  shows "evolve (concat (replicate k G)) w = (f ^^ k) w"
  using assms(3)
proof (induction k arbitrary: w)
  case 0
  then show ?case by simp
next
  case (Suc k)
  have "evolve (concat (replicate (Suc k) G)) w = evolve (concat (replicate k G)) (evolve G w)"
    by simp
  also have "\<dots> = (f ^^ k) (f w)"
    using Suc.IH[of "f w"] assms(1)[OF Suc.prems] assms(2) by simp
  finally show ?case by (simp add: funpow_swap1)
qed

lemma final_state_valid:
  assumes "0 < n" "length t = n" "binary_string t"
  shows "final_state n t k = Some ((grover_step n (target_index t) ^^ k) (uniform n))"
proof -
  let ?bits = "map (\<lambda>c. if c = CHR ''1'' then 1 else (0::nat)) (rev t)"
  let ?G = "oracle_gates n ?bits @ diffusion_gates n"
  have r: "run_grovers_algorithm n t k =
        Inr \<lparr>num_qubits = n, data = map H [0..<n] @ concat (replicate k ?G) @ [Measure_all]\<rparr>"
    using binary_target_bits[OF assms(3)] _ assms(1)
    by (rule run_ok) (simp add: set_zero_positions assms(2))
  have "evolve (concat (replicate k ?G)) (uniform n) = (grover_step n (target_index t) ^^ k) (uniform n)"
  proof (rule evolve_repeat[where N="2 ^ n"])
    show "evolve ?G w = grover_step n (target_index t) w" if "length w = 2 ^ n" for w
      using assms that by (rule iteration_semantics)
  qed simp_all
  then show ?thesis
    by (simp add: final_state_def state_after_def r H_layer_uniform)
qed

lemma uniform_2: "uniform 2 = [1 / 2, 1 / 2, 1 / 2, 1 / 2]"
  by (simp add: uniform_def eval_nat_numeral sqrt2_sq)

lemma step_2_once: "grover_step 2 3 [1 / 2, 1 / 2, 1 / 2, 1 / 2] = [0, 0, 0, - 1]"
  by (simp add: grover_step_def mean_def upt_rec)

lemma step_2_twice: "grover_step 2 3 [0, 0, 0, - 1] = [- 1 / 2, - 1 / 2, - 1 / 2, 1 / 2]"
  by (simp add: grover_step_def mean_def upt_rec)

lemma final_state_2_11:
  "final_state 2 ''11'' 1 = Some [0, 0, 0, - 1]"
  "final_state 2 ''11'' 2 = Some [- 1 / 2, - 1 / 2, - 1 / 2, 1 / 2]"
proof -
  have t: "target_index ''11'' = 3" by (simp add: target_index_def)
  have f: "final_state 2 ''11'' k = Some ((grover_step 2 3 ^^ k) (uniform 2))" for k
    using final_state_valid[of 2 "''11''" k] by (simp add: binary_string_def t)
  have two: "(g ^^ 2) x = g (g x)" for g :: "statevector \<Rightarrow> statevector" and x
    by (simp add: numeral_2_eq_2)
  show "final_state 2 ''11'' 1 = Some [0, 0, 0, - 1]"
    unfolding f by (simp add: uniform_2 step_2_once)
  show "final_state 2 ''11'' 2 = Some [- 1 / 2, - 1 / 2, - 1 / 2, 1 / 2]"
    unfolding f two by (simp add: uniform_2 step_2_once step_2_twice)
qed

subsection \<open>The probability of the target after one iteration\<close>

lemma sum_list_update_group:
  fixes xs :: "'a::ab_group_add list"
  shows "k < length xs \<Longrightarrow> sum_list (xs[k := x]) = sum_list xs + x - xs ! k"
proof (induction xs arbitrary: k)
  case Nil
  then show ?case by simp
next
  case (Cons y ys)
  then show ?case by (cases k) (simp_all add: algebra_simps)
qed

lemma target_amplitude_after_one:
  assumes "k < 2 ^ n"
  shows "grover_step n k (uniform n) ! k =
         - (1 / complex_of_real (sqrt 2) ^ n) * complex_of_real (3 - 4 / 2 ^ n)"
proof -
  define a where "a = 1 / complex_of_real (sqrt 2) ^ n"
  define N :: complex where "N = 2 ^ n"
  have N0: "N \<noteq> 0" by (simp add: N_def)
  have u: "uniform n = replicate (2 ^ n) a" by (simp add: uniform_def a_def)
  have s: "sum_list ((uniform n)[k := - a]) = N * a - 2 * a"
    using assms by (simp add: sum_list_update_group u sum_list_replicate N_def)
  have m: "mean ((uniform n)[k := - a]) = (N * a - 2 * a) / N"
    by (simp add: mean_def s N_def)
  have "grover_step n k (uniform n) ! k = - a - 2 * ((N * a - 2 * a) / N)"
    using assms by (simp add: grover_step_def u m[unfolded u])
  also have "\<dots> = - a * (3 - 4 / N)"
    using N0 by (simp add: field_simps)
  also have "3 - 4 / N = complex_of_real (3 - 4 / 2 ^ n)"
    by (simp add: N_def)
  finally show ?thesis by (simp add: a_def)
qed

lemma target_probability_after_one:
  assumes "k < 2 ^ n"
  shows "probabilities (grover_step n k (uniform n)) ! k = (3 - 4 / 2 ^ n)\<^sup>2 / 2 ^ n"
proof -
  have "probabilities (grover_step n k (uniform n)) ! k = (cmod (grover_step n k (uniform n) ! k))\<^sup>2"
    using assms by (simp add: probabilities_def)
  also have "\<dots> = (cmod (1 / complex_of_real (sqrt 2) ^ n))\<^sup>2 * (3 - 4 / 2 ^ n)\<^sup>2"
    unfolding target_amplitude_after_one[OF assms]
    by (simp only: norm_mult norm_minus_cancel norm_of_real power_mult_distrib power2_abs)
  finally show ?thesis by (simp add: cmod_sqrt2_pow)
qed

lemma amplified_above_baseline:
  assumes "2 \<le> n"
  shows "1 / 2 ^ n < (3 - 4 / 2 ^ n)\<^sup>2 / (2 ^ n :: real)"
proof -
  have "(2::real) ^ 2 \<le> 2 ^ n" using assms by (intro power_increasing) simp_all
  then have "4 / (2 ^ n :: real) \<le> 1" by simp
  then have "2 \<le> 3 - 4 / (2 ^ n :: real)" by simp
  then have "2\<^sup>2 \<le> (3 - 4 / (2 ^ n :: real))\<^sup>2" by (intro power_mono) simp_all
  then have "1 < (3 - 4 / (2 ^ n :: real))\<^sup>2" by simp
  then show ?thesis by (simp add: divide_strict_right_mono)
qed

subsection \<open>Conservation of probability\<close>

lemma total_probability_sum:
  "total_probability v = (\<Sum>i = 0..<length v. (cmod (v ! i))\<^sup>2)"
proof -
  have "total_probability v = (\<Sum>i = 0..<length v. map (\<lambda>a. (cmod a)\<^sup>2) v ! i)"
    by (simp add: total_probability_def probabilities_def sum_list_sum_nth)
  also have "\<dots> = (\<Sum>i = 0..<length v. (cmod (v ! i))\<^sup>2)"
    by (rule sum.cong) simp_all
  finally show ?thesis .
qed

lemma sum_reindex_involution:
  fixes g :: "nat \<Rightarrow> real"
  assumes "\<And>i. i < N \<Longrightarrow> p i < N" "\<And>i. i < N \<Longrightarrow> p (p i) = i"
  shows "(\<Sum>i = 0..<N. g (p i)) = (\<Sum>i = 0..<N. g i)"
  by (rule sum.reindex_bij_witness[where i = p and j = p]) (simp_all add: assms)

lemma total_probability_pauliX:
  assumes "length v = 2 ^ n" "q < n"
  shows "total_probability (pauliX v q) = total_probability v"
proof -
  have "total_probability (pauliX v q) = (\<Sum>i = 0..<2 ^ n. (cmod (v ! flip_bit q i))\<^sup>2)"
    unfolding total_probability_sum using assms(1)
    by (intro sum.cong) (simp_all add: nth_pauliX)
  also have "\<dots> = (\<Sum>i = 0..<2 ^ n. (cmod (v ! i))\<^sup>2)"
    by (rule sum_reindex_involution[where g = "\<lambda>i. (cmod (v ! i))\<^sup>2"])
       (simp_all add: flip_bit_lt assms(2) flip_flip)
  finally show ?thesis by (simp add: total_probability_sum assms(1))
qed

lemma total_probability_mcnot:
  assumes "length v = 2 ^ n" "t < n" "t \<notin> set cs"
  shows "total_probability (multiControlledNOT v cs t) = total_probability v"
proof -
  define C where "C i \<longleftrightarrow> (\<forall>c\<in>set cs. bit i c)" for i :: nat
  define p where "p i = (if C i then flip_bit t i else i)" for i :: nat
  have c: "C (flip_bit t i) \<longleftrightarrow> C i" for i :: nat
    unfolding C_def using assms(3) by (auto simp: bit_flip_nat)
  have pp: "p (p i) = i" for i
    by (cases "C i") (simp_all add: p_def c flip_flip)
  have pl: "p i < 2 ^ n" if "i < 2 ^ n" for i
    using that by (simp add: p_def flip_bit_lt assms(2))
  have nth: "multiControlledNOT v cs t ! i = v ! p i" if "i < 2 ^ n" for i
    using that assms(1) unfolding p_def C_def by (simp add: nth_mcnot)
  have "total_probability (multiControlledNOT v cs t) = (\<Sum>i = 0..<2 ^ n. (cmod (v ! p i))\<^sup>2)"
    unfolding total_probability_sum using assms(1)
    by (intro sum.cong) (simp_all add: nth)
  also have "\<dots> = (\<Sum>i = 0..<2 ^ n. (cmod (v ! i))\<^sup>2)"
    by (rule sum_reindex_involution[where g = "\<lambda>i. (cmod (v ! i))\<^sup>2"]) (simp_all add: pl pp)
  finally show ?thesis by (simp add: total_probability_sum assms(1))
qed

lemma parallelogram:
  "(cmod ((a + b) / complex_of_real (sqrt 2)))\<^sup>2 + (cmod ((a - b) / complex_of_real (sqrt 2)))\<^sup>2 =
   (cmod a)\<^sup>2 + (cmod b)\<^sup>2"
proof -
  have "(cmod (a + b))\<^sup>2 + (cmod (a - b))\<^sup>2 = 2 * (cmod a)\<^sup>2 + 2 * (cmod b)\<^sup>2"
    unfolding cmod_power2 by (simp add: power2_eq_square algebra_simps)
  then show ?thesis
    by (simp add: norm_divide power_divide flip: add_divide_distrib)
qed

lemma total_probability_hadamard:
  assumes "length v = 2 ^ n" "q < n"
  shows "total_probability (hadamard v q) = total_probability v"
proof -
  define g where "g i = (cmod (hadamard v q ! i))\<^sup>2" for i
  define h where "h i = (cmod (v ! i))\<^sup>2" for i
  define f where "f = (flip_bit q :: nat \<Rightarrow> nat)"
  have fl: "f i < 2 ^ n" if "i < 2 ^ n" for i
    using that assms(2) by (simp add: f_def flip_bit_lt)
  have ff: "f (f i) = i" for i by (simp add: f_def flip_flip)
  have pair: "g i + g (f i) = h i + h (f i)" if i: "i < 2 ^ n" for i
  proof (cases "bit i q")
    case True
    have "g i = (cmod ((v ! f i - v ! i) / complex_of_real (sqrt 2)))\<^sup>2"
      using i True assms(1) by (simp add: g_def nth_hadamard f_def)
    moreover have "g (f i) = (cmod ((v ! f i + v ! i) / complex_of_real (sqrt 2)))\<^sup>2"
      using fl[OF i] True assms(1) ff[of i]
      by (simp add: g_def nth_hadamard f_def[symmetric]) (simp add: f_def bit_flip_nat)
    ultimately show ?thesis
      using parallelogram[of "v ! f i" "v ! i"] by (simp add: h_def)
  next
    case False
    have "g i = (cmod ((v ! i + v ! f i) / complex_of_real (sqrt 2)))\<^sup>2"
      using i False assms(1) by (simp add: g_def nth_hadamard f_def)
    moreover have "g (f i) = (cmod ((v ! i - v ! f i) / complex_of_real (sqrt 2)))\<^sup>2"
      using fl[OF i] False assms(1) ff[of i]
      by (simp add: g_def nth_hadamard f_def[symmetric]) (simp add: f_def bit_flip_nat)
    ultimately show ?thesis
      using parallelogram[of "v ! i" "v ! f i"] by (simp add: h_def)
  qed
  have rg: "(\<Sum>i = 0..<2 ^ n. g (f i)) = (\<Sum>i = 0..<2 ^ n. g i)"
    by (rule sum_reindex_involution) (simp_all add: fl ff)
  have rh: "(\<Sum>i = 0..<2 ^ n. h (f i)) = (\<Sum>i = 0..<2 ^ n. h i)"
    by (rule sum_reindex_involution) (simp_all add: fl ff)
  have "2 * (\<Sum>i = 0..<2 ^ n. g i) = (\<Sum>i = 0..<2 ^ n. g i + g (f i))"
    by (simp add: sum.distrib rg)
  also have "\<dots> = (\<Sum>i = 0..<2 ^ n. h i + h (f i))"
    by (rule sum.cong) (simp_all add: pair)
  also have "\<dots> = 2 * (\<Sum>i = 0..<2 ^ n. h i)"
    by (simp add: sum.distrib rh)
  finally have "(\<Sum>i = 0..<2 ^ n. g i) = (\<Sum>i = 0..<2 ^ n. h i)" by simp
  then show ?thesis
    by (simp add: total_probability_sum assms(1) g_def h_def)
qed

lemma total_probability_instruction:
  assumes "length v = 2 ^ n" "well_formed n g"
  shows "total_probability (apply_instruction v g) = total_probability v"
  using assms
  by (cases g)
     (simp_all add: well_formed_def total_probability_hadamard total_probability_pauliX
        total_probability_mcnot)

lemma total_probability_evolve:
  assumes "length v = 2 ^ n" "list_all (well_formed n) gs"
  shows "total_probability (evolve gs v) = total_probability v"
  using assms
  by (induction gs arbitrary: v) (simp_all add: total_probability_instruction)

lemma total_probability_init: "total_probability (init n) = 1"
proof -
  have "total_probability (init n) = (\<Sum>i = 0..<2 ^ n. if i = (0::nat) then (1::real) else 0)"
    unfolding total_probability_sum
    by (intro sum.cong) (simp_all add: nth_init)
  also have "\<dots> = 1" by (simp add: sum.delta)
  finally show ?thesis .
qed

subsection \<open>The gates of a run are well formed\<close>

lemma well_formed_simps [simp]:
  "well_formed n (H q) \<longleftrightarrow> q < n"
  "well_formed n (X q) \<longleftrightarrow> q < n"
  "well_formed n (MCX cs t) \<longleftrightarrow> t < n \<and> list_all (\<lambda>c. c < n) cs \<and> t \<notin> set cs"
  "well_formed n Measure_all"
  by (simp_all add: well_formed_def)

lemma well_formed_map_H: "\<forall>q\<in>set qs. q < n \<Longrightarrow> list_all (well_formed n) (map H qs)"
  by (induction qs) simp_all

lemma well_formed_map_X: "\<forall>q\<in>set qs. q < n \<Longrightarrow> list_all (well_formed n) (map X qs)"
  by (induction qs) simp_all

lemma list_all_upt_less: "m \<le> n \<Longrightarrow> list_all (\<lambda>c. c < n) [0..<m]"
  by (simp add: list_all_iff)

lemma well_formed_mcz: "0 < n \<Longrightarrow> list_all (well_formed n) (mcz_gates n)"
  by (simp add: mcz_gates_def list_all_upt_less)

lemma well_formed_oracle:
  assumes "0 < n" "\<forall>p\<in>set (zero_positions (enumerate 0 bits)). p < n"
  shows "list_all (well_formed n) (oracle_gates n bits)"
  using well_formed_mcz[OF assms(1)] well_formed_map_X[OF assms(2)]
  by (simp add: oracle_gates_def)

lemma well_formed_diffusion: "0 < n \<Longrightarrow> list_all (well_formed n) (diffusion_gates n)"
  using well_formed_mcz[of n] well_formed_map_X[of "[0..<n]" n] well_formed_map_H[of "[0..<n]" n]
  by (simp add: diffusion_gates_def)

lemma well_formed_run:
  assumes "0 < n" "\<forall>p\<in>set (zero_positions (enumerate 0 bits)). p < n"
  shows "list_all (well_formed n)
           (map H [0..<n] @ concat (replicate k (oracle_gates n bits @ diffusion_gates n)) @
            [Measure_all])"
proof -
  have "list_all (well_formed n) (concat (replicate k (oracle_gates n bits @ diffusion_gates n)))"
    using well_formed_oracle[OF assms] well_formed_diffusion[OF assms(1)]
    by (induction k) simp_all
  then show ?thesis using well_formed_map_H[of "[0..<n]" n] by simp
qed

lemma list_all_take: "list_all P xs \<Longrightarrow> list_all P (take k xs)"
  by (auto simp: list_all_iff dest: in_set_takeD)

subsection \<open>Targets of the wrong length\<close>

lemma zero_positions_append:
  "zero_positions (xs @ ys) = zero_positions xs @ zero_positions ys"
  by (simp add: zero_positions_def)

lemma zero_positions_ones: "zero_positions (enumerate k (replicate m (Suc 0))) = []"
  by (auto simp: zero_positions_def filter_empty_conv in_set_enumerate_eq)

lemma zero_positions_padded:
  "zero_positions (enumerate 0 (bs @ replicate m (Suc 0))) = zero_positions (enumerate 0 bs)"
  by (simp add: enumerate_append_eq zero_positions_append zero_positions_ones)

lemma binary_string_padded:
  "binary_string t \<Longrightarrow> binary_string (replicate m CHR ''1'' @ t)"
  by (induction m) (simp_all add: binary_string_def)

lemma run_binary_short:
  assumes "0 < n" "binary_string t" "length t \<le> n"
  shows "run_grovers_algorithm n t k =
         Inr \<lparr>num_qubits = n,
              data = map H [0..<n] @
                     concat (replicate k (oracle_gates n (map (\<lambda>c. if c = CHR ''1'' then 1 else 0) (rev t)) @
                                          diffusion_gates n)) @
                     [Measure_all]\<rparr>"
  using binary_target_bits[OF assms(2)] _ assms(1)
  by (rule run_ok) (use assms(3) in \<open>simp add: set_zero_positions\<close>)

lemma oracle_gates_padded:
  "oracle_gates n (map (\<lambda>c. if c = CHR ''1'' then 1 else 0) (rev (replicate m CHR ''1'' @ t))) =
   oracle_gates n (map (\<lambda>c. if c = CHR ''1'' then 1 else 0) (rev t))"
  by (simp add: oracle_gates_def zero_positions_padded)

lemma run_padded:
  assumes "0 < n" "binary_string t" "length t \<le> n"
  shows "run_grovers_algorithm n (replicate m CHR ''1'' @ t) k = run_grovers_algorithm n t k"
proof -
  let ?t' = "replicate m CHR ''1'' @ t"
  let ?bits' = "map (\<lambda>c. if c = CHR ''1'' then 1 else (0::nat)) (rev ?t')"
  have z: "\<forall>p\<in>set (zero_positions (enumerate 0 ?bits')). p < n"
    using assms(3) by (simp add: zero_positions_padded set_zero_positions)
  have "run_grovers_algorithm n ?t' k =
        Inr \<lparr>num_qubits = n,
             data = map H [0..<n] @ concat (replicate k (oracle_gates n ?bits' @ diffusion_gates n)) @
                    [Measure_all]\<rparr>"
    using binary_target_bits[OF binary_string_padded[OF assms(2)]] z assms(1) by (rule run_ok)
  then show ?thesis
    unfolding oracle_gates_padded run_binary_short[OF assms] .
qed

lemma qc_x_out_of_range:
  "num_qubits qc \<le> i \<Longrightarrow> qc_x qc (int i) = Inl (CircuitError, qc)"
  by (simp add: qc_x_def qubit_index_def)

lemma qc_x_in_range:
  "i < num_qubits qc \<Longrightarrow> qc_x qc (int i) = Inr (qc\<lparr>data := data qc @ [X i]\<rparr>)"
  by (simp add: qc_x_def qubit_index_int append_instruction_def)

lemma x_where_zero_raises:
  assumes "\<exists>p\<in>set ps. snd p = 0 \<and> num_qubits qc \<le> fst p"
  shows "\<exists>gs. x_where_zero qc ps = Inl (CircuitError, qc\<lparr>data := data qc @ gs\<rparr>)"
  using assms
proof (induction qc ps rule: x_where_zero.induct)
  case (1 qc)
  then show ?case by simp
next
  case (2 qc i b rest)
  show ?case
  proof (cases "b = 0")
    case b: True
    show ?thesis
    proof (cases "i < num_qubits qc")
      case True
      let ?q = "qc\<lparr>data := data qc @ [X i]\<rparr>"
      have "\<exists>p\<in>set rest. snd p = 0 \<and> num_qubits ?q \<le> fst p"
        using "2.prems" True by auto
      then obtain gs where "x_where_zero ?q rest = Inl (CircuitError, ?q\<lparr>data := data ?q @ gs\<rparr>)"
        using "2.IH"(1)[OF b, of ?q] by auto
      then have "x_where_zero qc ((i, b) # rest) =
                 Inl (CircuitError, qc\<lparr>data := data qc @ (X i # gs)\<rparr>)"
        using b True by (simp add: qc_x_in_range and_then_def)
      then show ?thesis by blast
    next
      case False
      then have "x_where_zero qc ((i, b) # rest) = Inl (CircuitError, qc\<lparr>data := data qc @ []\<rparr>)"
        using b by (simp add: qc_x_out_of_range and_then_def)
      then show ?thesis by blast
    qed
  next
    case False
    then have "\<exists>p\<in>set rest. snd p = 0 \<and> num_qubits qc \<le> fst p"
      using "2.prems" by auto
    then show ?thesis using "2.IH"(2)[OF False] False by simp
  qed
qed

lemma surplus_zero_position:
  assumes "n < length t" "CHR ''0'' \<in> set (take (length t - n) t)"
  shows "\<exists>p\<in>set (enumerate 0 (map (\<lambda>c. if c = CHR ''1'' then 1 else (0::nat)) (rev t))).
           snd p = 0 \<and> n \<le> fst p"
proof -
  obtain j where j: "j < length t - n" "t ! j = CHR ''0''"
    using assms(2) by (auto simp: in_set_conv_nth)
  define p where "p = length t - 1 - j"
  have p: "p < length t" "n \<le> p" "length t - Suc p = j"
    using j(1) assms(1) by (simp_all add: p_def)
  have "rev t ! p = CHR ''0''"
    using p j(2) by (simp add: rev_nth)
  then have "(p, 0) \<in> set (enumerate 0 (map (\<lambda>c. if c = CHR ''1'' then 1 else (0::nat)) (rev t)))"
    using p(1) by (simp add: in_set_enumerate_eq)
  then show ?thesis using p(2) by force
qed

lemma run_raises:
  assumes "0 < n" "binary_string t" "n < length t"
    and "CHR ''0'' \<in> set (take (length t - n) t)" "0 < k"
  shows "\<exists>gs. run_grovers_algorithm n t k =
              Inl (CircuitError, \<lparr>num_qubits = n, data = map H [0..<n] @ gs\<rparr>)"
proof -
  let ?bits = "map (\<lambda>c. if c = CHR ''1'' then 1 else (0::nat)) (rev t)"
  let ?q = "\<lparr>num_qubits = n, data = map H [0..<n]\<rparr>"
  obtain k' where k: "k = Suc k'" using assms(5) by (cases k) auto
  have "\<exists>p\<in>set (enumerate 0 ?bits). snd p = 0 \<and> num_qubits ?q \<le> fst p"
    using surplus_zero_position[OF assms(3,4)] by simp
  then obtain gs where x: "x_where_zero ?q (enumerate 0 ?bits) =
      Inl (CircuitError, ?q\<lparr>data := data ?q @ gs\<rparr>)"
    using x_where_zero_raises by blast
  have "apply_oracle ?q n t = Inl (CircuitError, ?q\<lparr>data := data ?q @ gs\<rparr>)"
    by (simp add: apply_oracle_def binary_target_bits[OF assms(2)] x and_then_def)
  then have "run_grovers_algorithm n t k = Inl (CircuitError, \<lparr>num_qubits = n, data = map H [0..<n] @ gs\<rparr>)"
    by (simp add: run_grovers_algorithm_def initial_layer and_then_def k)
  then show ?thesis by blast
qed


section \<open>The claims\<close>

text \<open>
  C1. For \<open>n \<ge> 1\<close> and a binary target string of length \<open>n\<close>, \<open>apply_oracle\<close> appends gates
  whose effect on a vector of \<open>2 ^ n\<close> amplitudes is to negate the amplitude at the index
  whose binary numeral is the target string, and to leave every other amplitude as it is.
  The last character of the string is bit 0 of that index. For \<open>n = 3\<close> and target \<open>101\<close>
  the index is 5.
\<close>

theorem oracle_negates_exactly_target:
  assumes "1 \<le> n" "length target = n" "binary_string target"
    and "length v = 2 ^ n" "num_qubits qc = n"
  shows "\<exists>gs. apply_oracle qc n target = Inr (qc\<lparr>data := data qc @ gs\<rparr>) \<and>
              evolve gs v = v[target_index target := - (v ! target_index target)] \<and>
              target_index target < 2 ^ n \<and>
              (\<forall>k<n. bit (target_index target) k \<longleftrightarrow> rev target ! k = CHR ''1'')"
proof -
  have n: "0 < n" using assms(1) by simp
  show ?thesis
    using oracle_ok_binary[OF n assms(2,3,5)] oracle_semantics[OF n assms(2,3,4)]
      target_index_lt[of target] assms(2)
    by (auto simp: bit_target_index)
qed

theorem oracle_negates_exactly_target_witness:
  "\<exists>gs. apply_oracle (QuantumCircuit 3) 3 ''101'' =
          Inr ((QuantumCircuit 3)\<lparr>data := data (QuantumCircuit 3) @ gs\<rparr>) \<and>
        evolve gs [1, 2, 3, 4, 5, 6, 7, 8] = [1, 2, 3, 4, 5, - 6, 7, 8] \<and>
        target_index ''101'' = 5"
proof -
  have "\<exists>gs. apply_oracle (QuantumCircuit 3) 3 ''101'' =
          Inr ((QuantumCircuit 3)\<lparr>data := data (QuantumCircuit 3) @ gs\<rparr>) \<and>
        evolve gs [1, 2, 3, 4, 5, 6, 7, 8] = [1, 2, 3, 4, 5, - 6, 7, 8]"
    using oracle_negates_exactly_target[of 3 "''101''" "[1, 2, 3, 4, 5, 6, 7, 8]" "QuantumCircuit 3"]
    by (simp add: binary_string_def target_index_def QuantumCircuit_def) blast
  then show ?thesis by (simp add: target_index_def)
qed

text \<open>
  C2. For \<open>n \<ge> 1\<close>, \<open>apply_diffusion\<close> appends H on every qubit, X on every qubit, H-MCX-H on
  the last qubit controlled by all the others, X on every qubit, H on every qubit. On a
  vector \<open>v\<close> of \<open>2 ^ n\<close> amplitudes these gates give \<open>v[i] - 2 mean(v)\<close> at every index \<open>i\<close>:
  the negation of the reflection \<open>2 mean(v) - v[i]\<close>, with the same magnitude.
\<close>

theorem diffusion_closed_form:
  assumes "1 \<le> n" "length v = 2 ^ n" "num_qubits qc = n"
  shows "\<exists>gs. apply_diffusion qc n = Inr (qc\<lparr>data := data qc @ gs\<rparr>) \<and>
              gs = map H [0..<n] @ map X [0..<n] @
                   [H (n - 1), MCX [0..<n - 1] (n - 1), H (n - 1)] @
                   map X [0..<n] @ map H [0..<n] \<and>
              evolve gs v = map (\<lambda>i. v ! i - 2 * mean v) [0..<2 ^ n] \<and>
              (\<forall>i<2 ^ n. evolve gs v ! i = - (2 * mean v - v ! i) \<and>
                         cmod (evolve gs v ! i) = cmod (2 * mean v - v ! i))"
proof -
  have n: "0 < n" using assms(1) by simp
  have a: "apply_diffusion qc n = Inr (qc\<lparr>data := data qc @ diffusion_gates n\<rparr>)"
    using n assms(3) by (rule apply_diffusion_ok)
  have b: "evolve (diffusion_gates n) v = map (\<lambda>i. v ! i - 2 * mean v) [0..<2 ^ n]"
    using n assms(2) by (rule diffusion_semantics)
  have c: "evolve (diffusion_gates n) v ! i = - (2 * mean v - v ! i) \<and>
           cmod (evolve (diffusion_gates n) v ! i) = cmod (2 * mean v - v ! i)" if "i < 2 ^ n" for i
    using that by (simp add: b norm_minus_commute)
  show ?thesis
    using a b c unfolding diffusion_gates_def mcz_gates_def by blast
qed

theorem diffusion_closed_form_witness:
  "\<exists>gs. apply_diffusion (QuantumCircuit 2) 2 =
          Inr ((QuantumCircuit 2)\<lparr>data := data (QuantumCircuit 2) @ gs\<rparr>) \<and>
        gs = [H 0, H 1, X 0, X 1, H 1, MCX [0] 1, H 1, X 0, X 1, H 0, H 1] \<and>
        evolve gs [1, 0, 0, 0] = [1 / 2, - 1 / 2, - 1 / 2, - 1 / 2]"
proof -
  have "\<exists>gs. apply_diffusion (QuantumCircuit 2) 2 =
          Inr ((QuantumCircuit 2)\<lparr>data := data (QuantumCircuit 2) @ gs\<rparr>) \<and>
        gs = [H 0, H 1, X 0, X 1, H 1, MCX [0] 1, H 1, X 0, X 1, H 0, H 1] \<and>
        evolve gs [1, 0, 0, 0] = map (\<lambda>i. [1, 0, 0, 0] ! i - 2 * mean [1, 0, 0, 0]) [0..<2 ^ 2]"
    using diffusion_closed_form[of 2 "[1, 0, 0, 0]" "QuantumCircuit 2"]
    by (simp add: QuantumCircuit_def upt_rec)
  then show ?thesis by (simp add: mean_def upt_rec)
qed

theorem reflection_about_mean_counterexample:
  "state_after (apply_diffusion (QuantumCircuit 2) 2) [1, 0, 0, 0] =
     Some [1 / 2, - 1 / 2, - 1 / 2, - 1 / 2] \<and>
   [1 / 2, - 1 / 2, - 1 / 2, - 1 / 2] ! 0 \<noteq> 2 * mean [1, 0, 0, 0] - [1, 0, 0, 0] ! 0"
proof -
  have a: "apply_diffusion (QuantumCircuit 2) 2 =
           Inr ((QuantumCircuit 2)\<lparr>data := data (QuantumCircuit 2) @ diffusion_gates 2\<rparr>)"
    by (rule apply_diffusion_ok) (simp_all add: QuantumCircuit_def)
  have b: "evolve (diffusion_gates 2) [1, 0, 0, 0] =
           map (\<lambda>i. [1, 0, 0, 0] ! i - 2 * mean [1, 0, 0, 0]) [0..<2 ^ 2]"
    by (rule diffusion_semantics) simp_all
  show ?thesis
    using a b by (simp add: state_after_def QuantumCircuit_def mean_def upt_rec)
qed

text \<open>
  C3. For \<open>n = 2\<close> and target \<open>11\<close> (index 3): after a run with 1 iteration the state before
  the measurement gives outcome \<open>11\<close> probability exactly 1; after a run with 2 iterations
  every one of the four outcomes has probability exactly 1/4.
\<close>

theorem two_qubit_oscillation:
  "target_index ''11'' = 3 \<and>
   final_state 2 ''11'' 1 = Some [0, 0, 0, - 1] \<and>
   probabilities [0, 0, 0, - 1] = [0, 0, 0, 1] \<and>
   final_state 2 ''11'' 2 = Some [- 1 / 2, - 1 / 2, - 1 / 2, 1 / 2] \<and>
   probabilities [- 1 / 2, - 1 / 2, - 1 / 2, 1 / 2] = [1 / 4, 1 / 4, 1 / 4, 1 / 4]"
  using final_state_2_11
  by (simp add: probabilities_def target_index_def norm_divide power_divide)

text \<open>
  C4. For \<open>n \<ge> 1\<close>, a binary target of length \<open>n\<close> and any number of iterations, the circuit
  of \<open>run_grovers_algorithm\<close> keeps the sum of the squared magnitudes at exactly 1 after
  each of its gates: after every prefix of the gate list, applied to the state
  \<open>|0\<dots>0\<rangle>\<close>. So it stays within \<open>10\<^sup>-\<^sup>6\<close> of 1.
\<close>

theorem probability_conserved_after_every_gate:
  assumes "1 \<le> n" "length target = n" "binary_string target"
  shows "\<exists>qc. run_grovers_algorithm n target iterations = Inr qc \<and>
              (\<forall>k\<le>length (data qc).
                 total_probability (evolve (take k (data qc)) (init n)) = 1 \<and>
                 \<bar>total_probability (evolve (take k (data qc)) (init n)) - 1\<bar> \<le> 1 / 10 ^ 6)"
proof -
  have n: "0 < n" using assms(1) by simp
  let ?bits = "map (\<lambda>c. if c = CHR ''1'' then 1 else (0::nat)) (rev target)"
  let ?gs = "map H [0..<n] @ concat (replicate iterations (oracle_gates n ?bits @ diffusion_gates n)) @
             [Measure_all]"
  have z: "\<forall>p\<in>set (zero_positions (enumerate 0 ?bits)). p < n"
    by (simp add: set_zero_positions assms(2))
  have r: "run_grovers_algorithm n target iterations = Inr \<lparr>num_qubits = n, data = ?gs\<rparr>"
    using binary_target_bits[OF assms(3)] z n by (rule run_ok)
  have w: "list_all (well_formed n) ?gs" using n z by (rule well_formed_run)
  have "total_probability (evolve (take k ?gs) (init n)) = 1" for k
    using total_probability_evolve[of "init n" n "take k ?gs"] list_all_take[OF w, of k]
    by (simp add: total_probability_init)
  then show ?thesis using r by simp
qed

theorem probability_conserved_after_every_gate_witness:
  "\<exists>qc. run_grovers_algorithm 2 ''11'' 1 = Inr qc \<and>
        total_probability (evolve (data qc) (init 2)) = 1"
proof -
  obtain qc where a: "run_grovers_algorithm 2 ''11'' 1 = Inr qc"
    and b: "\<forall>k\<le>length (data qc). total_probability (evolve (take k (data qc)) (init 2)) = 1"
    using probability_conserved_after_every_gate[of 2 "''11''" 1]
    by (auto simp: binary_string_def)
  from b have "total_probability (evolve (take (length (data qc)) (data qc)) (init 2)) = 1"
    by blast
  then show ?thesis using a by simp
qed

text \<open>
  C5. For \<open>n \<ge> 1\<close>, the gates of \<open>apply_diffusion\<close> applied twice, with no oracle in
  between, give back the vector of \<open>2 ^ n\<close> amplitudes they started from. The equality is
  exact over the complex numbers.
\<close>

theorem diffusion_is_involution:
  assumes "1 \<le> n" "length v = 2 ^ n" "num_qubits qc = n"
  shows "\<exists>gs. apply_diffusion qc n = Inr (qc\<lparr>data := data qc @ gs\<rparr>) \<and>
              evolve gs (evolve gs v) = v"
proof -
  have n: "0 < n" using assms(1) by simp
  show ?thesis
    using apply_diffusion_ok[OF n assms(3)] diffusion_twice[OF n assms(2)] by blast
qed

theorem diffusion_is_involution_witness:
  "\<exists>gs. apply_diffusion (QuantumCircuit 2) 2 =
          Inr ((QuantumCircuit 2)\<lparr>data := data (QuantumCircuit 2) @ gs\<rparr>) \<and>
        evolve gs (evolve gs [1, 2, 3, 4]) = [1, 2, 3, 4]"
  using diffusion_is_involution[of 2 "[1, 2, 3, 4]" "QuantumCircuit 2"]
  by (simp add: QuantumCircuit_def)

text \<open>
  C6. For \<open>n \<ge> 1\<close> and a binary target of length \<open>n\<close>, after a run with one iteration (the
  default) the probability of the target is \<open>(3 - 4 / 2 ^ n)\<^sup>2 / 2 ^ n\<close>, which for \<open>n \<ge> 2\<close> is
  strictly larger than the baseline \<open>1 / 2 ^ n\<close>.
\<close>

theorem one_iteration_amplifies:
  assumes "1 \<le> n" "length target = n" "binary_string target"
  shows "\<exists>v. final_state n target 1 = Some v \<and>
             probabilities v ! target_index target = (3 - 4 / 2 ^ n)\<^sup>2 / 2 ^ n \<and>
             (2 \<le> n \<longrightarrow> 1 / 2 ^ n < probabilities v ! target_index target)"
proof -
  have n: "0 < n" using assms(1) by simp
  have k: "target_index target < 2 ^ n" using target_index_lt[of target] assms(2) by simp
  have "final_state n target 1 = Some (grover_step n (target_index target) (uniform n))"
    using final_state_valid[OF n assms(2,3), of 1] by simp
  then show ?thesis
    using target_probability_after_one[OF k] amplified_above_baseline[of n] by simp
qed

theorem one_iteration_amplifies_witness:
  "\<exists>v. final_state 2 ''11'' 1 = Some v \<and> probabilities v ! 3 = 1 \<and> 1 / 4 < probabilities v ! 3"
proof -
  have t: "target_index ''11'' = 3" by (simp add: target_index_def)
  show ?thesis
    using one_iteration_amplifies[of 2 "''11''"] unfolding t
    by (simp add: binary_string_def)
qed

theorem two_iterations_counterexample:
  "final_state 2 ''11'' 2 = Some [- 1 / 2, - 1 / 2, - 1 / 2, 1 / 2] \<and>
   target_index ''11'' = 3 \<and>
   \<not> 1 / 2 ^ 2 < probabilities [- 1 / 2, - 1 / 2, - 1 / 2, 1 / 2] ! 3"
  using final_state_2_11(2)
  by (simp add: probabilities_def target_index_def norm_divide power_divide)

text \<open>
  C7. \<open>run_grovers_algorithm\<close> does not compare the length of the target with \<open>n\<close>. For
  \<open>n \<ge> 1\<close>, a binary target \<open>t\<close> no longer than \<open>n\<close> is run without error, and so is \<open>t\<close> with
  any number of \<open>1\<close> characters in front of it, with the same circuit: a short target counts
  as padded with \<open>1\<close>s, a long one whose surplus leading characters are all \<open>1\<close> as
  truncated. A binary target \<open>u\<close> longer than \<open>n\<close> with a \<open>0\<close> among its surplus leading
  characters makes a run of at least one iteration raise \<open>CircuitError\<close> from the oracle's
  loop of X gates, when the circuit already holds the initial Hadamard layer. No run fails
  for the length of its target as such.
\<close>

theorem target_length_not_validated:
  assumes "1 \<le> n" "binary_string t" "length t \<le> n"
    and "binary_string u" "n < length u" "CHR ''0'' \<in> set (take (length u - n) u)"
    and "1 \<le> j"
  shows "(\<exists>qc. run_grovers_algorithm n t k = Inr qc \<and>
               run_grovers_algorithm n (replicate m CHR ''1'' @ t) k = Inr qc) \<and>
         (\<exists>gs. run_grovers_algorithm n u j =
               Inl (CircuitError, \<lparr>num_qubits = n, data = map H [0..<n] @ gs\<rparr>))"
proof -
  have n: "0 < n" and j: "0 < j" using assms(1,7) by simp_all
  have "\<exists>qc. run_grovers_algorithm n t k = Inr qc"
    using run_binary_short[OF n assms(2,3)] by blast
  then have "\<exists>qc. run_grovers_algorithm n t k = Inr qc \<and>
               run_grovers_algorithm n (replicate m CHR ''1'' @ t) k = Inr qc"
    using run_padded[OF n assms(2,3)] by auto
  then show ?thesis
    using run_raises[OF n assms(4,5,6) j] by blast
qed

theorem target_length_not_validated_witness:
  "(\<exists>qc. run_grovers_algorithm 2 ''0'' 1 = Inr qc \<and> run_grovers_algorithm 2 ''10'' 1 = Inr qc) \<and>
   (\<exists>gs. run_grovers_algorithm 2 ''011'' 1 = Inl (CircuitError, \<lparr>num_qubits = 2, data = [H 0, H 1] @ gs\<rparr>))"
  using target_length_not_validated[where n = 2 and t = "''0''" and u = "''011''"
      and j = 1 and k = 1 and m = 1]
  by (simp add: binary_string_def upt_rec)

theorem silent_padding_counterexample:
  "length ''111'' \<noteq> 2 \<and>
   run_grovers_algorithm 2 ''111'' 1 =
     Inr \<lparr>num_qubits = 2,
          data = [H 0, H 1,
                  H 1, MCX [0] 1, H 1,
                  H 0, H 1, X 0, X 1, H 1, MCX [0] 1, H 1, X 0, X 1, H 0, H 1,
                  Measure_all]\<rparr> \<and>
   run_grovers_algorithm 2 ''11'' 1 = run_grovers_algorithm 2 ''111'' 1"
proof -
  have a: "run_grovers_algorithm 2 ''111'' 1 =
      Inr \<lparr>num_qubits = 2,
           data = map H [0..<2] @ concat (replicate 1 (oracle_gates 2 [1, 1, 1] @ diffusion_gates 2)) @
                  [Measure_all]\<rparr>"
    by (rule run_ok) (simp_all add: int_of_char_def zero_positions_def)
  have b: "run_grovers_algorithm 2 ''11'' 1 =
      Inr \<lparr>num_qubits = 2,
           data = map H [0..<2] @ concat (replicate 1 (oracle_gates 2 [1, 1] @ diffusion_gates 2)) @
                  [Measure_all]\<rparr>"
    by (rule run_ok) (simp_all add: int_of_char_def zero_positions_def)
  show ?thesis
    unfolding a b
    by (simp add: oracle_gates_def diffusion_gates_def mcz_gates_def zero_positions_def upt_rec)
qed

text \<open>
  C8. Applying \<open>pauliX\<close> (the gate that \<open>qc.x\<close> appends) twice to the same qubit
  \<open>q < n\<close> gives back the vector of \<open>2 ^ n\<close> amplitudes it started from, exactly.
\<close>

theorem pauliX_twice_restores:
  assumes "length v = 2 ^ n" "q < n"
  shows "pauliX (pauliX v q) q = v \<and> evolve [X q, X q] v = v"
  using pauliX_pauliX[OF assms] by simp

theorem pauliX_twice_restores_witness:
  "pauliX (pauliX [1, 2, 3, 4] 1) 1 = [1, 2, 3, 4] \<and> evolve [X 1, X 1] [1, 2, 3, 4] = [1, 2, 3, 4]"
  using pauliX_twice_restores[of "[1, 2, 3, 4]" 2 1] by simp

text \<open>
  C9. For \<open>n \<ge> 1\<close> and a binary target of length \<open>n\<close>, two calls of \<open>apply_oracle\<close> in
  succession append the same gates twice, and the two together leave every amplitude
  vector as it was: the oracle is its own inverse.
\<close>

theorem oracle_twice_restores:
  assumes "1 \<le> n" "length target = n" "binary_string target"
    and "length v = 2 ^ n" "num_qubits qc = n"
  shows "\<exists>qc1 qc2 gs. apply_oracle qc n target = Inr qc1 \<and> apply_oracle qc1 n target = Inr qc2 \<and>
           data qc1 = data qc @ gs \<and> data qc2 = data qc @ gs @ gs \<and>
           evolve (gs @ gs) v = v"
proof -
  have n: "0 < n" using assms(1) by simp
  let ?gs = "oracle_gates n (map (\<lambda>c. if c = CHR ''1'' then 1 else 0) (rev target))"
  let ?qc1 = "qc\<lparr>data := data qc @ ?gs\<rparr>"
  have 1: "apply_oracle qc n target = Inr ?qc1"
    using n assms(2,3,5) by (rule oracle_ok_binary)
  have 2: "apply_oracle ?qc1 n target = Inr (?qc1\<lparr>data := data ?qc1 @ ?gs\<rparr>)"
    using n assms(2,3) by (rule oracle_ok_binary) (simp add: assms(5))
  have e: "evolve ?gs w = w[target_index target := - (w ! target_index target)]"
    if "length w = 2 ^ n" for w
    using n assms(2,3) that by (rule oracle_semantics)
  have "evolve (?gs @ ?gs) v = v"
    by (simp add: e assms(4) list_update_twice_neg)
  then show ?thesis using 1 2 by simp
qed

theorem oracle_twice_restores_witness:
  "\<exists>qc1 qc2 gs. apply_oracle (QuantumCircuit 2) 2 ''10'' = Inr qc1 \<and>
       apply_oracle qc1 2 ''10'' = Inr qc2 \<and>
       data qc1 = data (QuantumCircuit 2) @ gs \<and> data qc2 = data (QuantumCircuit 2) @ gs @ gs \<and>
       evolve (gs @ gs) [1, 2, 3, 4] = [1, 2, 3, 4]"
  using oracle_twice_restores[of 2 "''10''" "[1, 2, 3, 4]" "QuantumCircuit 2"]
  by (simp add: binary_string_def QuantumCircuit_def)

text \<open>
  C10. \<open>run_grovers_algorithm\<close> with \<open>iterations = 0\<close> raises nothing, whatever the target
  string: the circuit holds the initial Hadamard layer and the measurement only, and in the
  state before the measurement each of the \<open>2 ^ n\<close> outcomes has probability exactly
  \<open>1 / 2 ^ n\<close>.
\<close>

theorem zero_iterations_uniform:
  "run_grovers_algorithm n target 0 =
     Inr \<lparr>num_qubits = n, data = map H [0..<n] @ [Measure_all]\<rparr> \<and>
   final_state n target 0 = Some (replicate (2 ^ n) (1 / complex_of_real (sqrt 2) ^ n)) \<and>
   probabilities (replicate (2 ^ n) (1 / complex_of_real (sqrt 2) ^ n)) =
     replicate (2 ^ n) (1 / 2 ^ n)"
  by (simp add: run_zero final_state_def state_after_def H_layer_uniform uniform_def
      probabilities_def cmod_sqrt2_pow)

end
